theory Spec2Isabelle
  imports Main "HOL-Library.Word" "HOL-Library.Signed_Division"
begin

unbundle bit_operations_syntax

section \<open>Byte arrays\<close>

text \<open>
  A \<^verbatim>\<open>Uint8Array\<close> is a list of 8-bit words. Offsets, lengths and the numbers decoded
  from at most four bytes are natural numbers: a number decoded from four bytes is
  below \<open>2 ^ 32\<close> and an offset inside an array is below \<open>2 ^ 53\<close>, where JavaScript
  numbers are exact. Errors thrown by the code are values: \<^verbatim>\<open>throw new Error(msg)\<close>
  is \<open>Inl (Error msg)\<close>, and a rejected promise is the same \<open>Inl\<close>. The two \<^verbatim>\<open>await\<close>s
  of the code are plain calls here.
\<close>

type_synonym byte = "8 word"
type_synonym Uint8Array = "byte list"

datatype error = Error string

definition PNG_HEADER :: Uint8Array where
  "PNG_HEADER = [0x89, 0x50, 0x4e, 0x47, 0x0d, 0x0a, 0x1a, 0x0a]"

definition CGBI_CHUNK :: Uint8Array where
  "CGBI_CHUNK = [0x00, 0x00, 0x00, 0x04, 0x43, 0x67, 0x42, 0x49]"

definition CGBI_BGRA :: Uint8Array where
  "CGBI_BGRA = [0x50, 0x00, 0x20, 0x06, 0x2c, 0xb8, 0x77, 0x66]"

text \<open>
  \<^verbatim>\<open>a.subarray(begin, end)\<close> for offsets that are not negative: both ends are clamped to
  the length of the array, and the view is empty when \<open>end \<le> begin\<close>. The code never
  passes a negative offset (the only subtraction, \<^verbatim>\<open>reader.offset -= 8\<close>, happens at
  offset 16).
\<close>

definition subarray :: "Uint8Array \<Rightarrow> nat \<Rightarrow> nat \<Rightarrow> Uint8Array" where
  "subarray a begin end = take (end - begin) (drop begin a)"

text \<open>
  \<^verbatim>\<open>a[k]\<close> is \<^verbatim>\<open>undefined\<close> (here \<open>None\<close>) outside the array, and a store
  \<^verbatim>\<open>a[k] = v\<close> outside the array is ignored; storing \<^verbatim>\<open>undefined\<close> writes 0.
\<close>

definition load :: "Uint8Array \<Rightarrow> nat \<Rightarrow> byte option" where
  "load a k = (if k < length a then Some (a ! k) else None)"

definition store :: "Uint8Array \<Rightarrow> nat \<Rightarrow> byte option \<Rightarrow> Uint8Array" where
  "store a k v = (if k < length a then a[k := (case v of Some b \<Rightarrow> b | None \<Rightarrow> 0)] else a)"

text \<open>
  \<^verbatim>\<open>isEquals\<close> compares the lengths, then the bytes index by index.
\<close>

definition isEquals :: "Uint8Array \<Rightarrow> Uint8Array \<Rightarrow> bool" where
  "isEquals a b =
     (if length a \<noteq> length b then False
      else list_all (\<lambda>i. a ! i = b ! i) [0..<length a])"

definition hasPngHeader :: "Uint8Array \<Rightarrow> bool" where
  "hasPngHeader data = isEquals (subarray data 0 8) PNG_HEADER"

text \<open>The second argument is the offset, 8 when the caller leaves it out.\<close>

definition hasCgbiChunk :: "Uint8Array \<Rightarrow> nat \<Rightarrow> bool" where
  "hasCgbiChunk data offset = isEquals (subarray data offset (offset + 8)) CGBI_CHUNK"

definition isStandardPng :: "Uint8Array \<Rightarrow> bool" where
  "isStandardPng data = (hasPngHeader data \<and> \<not> hasCgbiChunk data 8)"

definition isCgbiPng :: "Uint8Array \<Rightarrow> bool" where
  "isCgbiPng data = (hasPngHeader data \<and> hasCgbiChunk data 8)"

definition toNumber :: "Uint8Array \<Rightarrow> nat" where
  "toNumber data = fold (\<lambda>b result. result * 256 + unat b) data 0"

text \<open>
  \<^verbatim>\<open>toUint8Array\<close> takes a JavaScript number that is an integer. \<^verbatim>\<open>data % 256\<close>
  truncates towards zero (\<open>smod\<close>), the store into the byte array reduces modulo 256
  (\<open>word_of_int\<close>), and \<^verbatim>\<open>Math.floor(data / 256)\<close> is \<open>div\<close>.
\<close>

definition toUint8Array :: "int \<Rightarrow> Uint8Array" where
  "toUint8Array data =
     fst (fold (\<lambda>i (result, data). (result[i := word_of_int (data smod 256)], data div 256))
            [3, 2, 1, 0] (replicate 4 0, data))"

text \<open>
  \<^verbatim>\<open>concatUint8Array\<close> allocates the sum of the lengths and copies each array at the
  offset where the one before it ends.
\<close>

definition concatUint8Array :: "Uint8Array list \<Rightarrow> Uint8Array" where
  "concatUint8Array arrays = concat arrays"

text \<open>\<^verbatim>\<open>String.fromCharCode(...bytes)\<close>: one character per byte.\<close>

definition fromCharCode :: "Uint8Array \<Rightarrow> string" where
  "fromCharCode bytes = map (\<lambda>b. char_of (unat b)) bytes"

text \<open>\<^verbatim>\<open>byte.toString(16).padStart(2, "0")\<close> and \<^verbatim>\<open>join(" ")\<close>.\<close>

definition hexDigit :: "nat \<Rightarrow> char" where
  "hexDigit n = ''0123456789abcdef'' ! n"

definition toString16 :: "byte \<Rightarrow> string" where
  "toString16 byte =
     (if unat byte < 16 then [hexDigit (unat byte)]
      else [hexDigit (unat byte div 16), hexDigit (unat byte mod 16)])"

definition padStart :: "nat \<Rightarrow> char \<Rightarrow> string \<Rightarrow> string" where
  "padStart n c s = replicate (n - length s) c @ s"

fun join :: "string \<Rightarrow> string list \<Rightarrow> string" where
  "join sep [] = []"
| "join sep [s] = s"
| "join sep (s # t # ss) = s @ sep @ join sep (t # ss)"

text \<open>
  The diagnostic that \<^verbatim>\<open>convert\<close> builds from \<^verbatim>\<open>headerTypeRaw\<close>: every byte
  as two hexadecimal digits, joined by spaces.
\<close>

definition hexTag :: "Uint8Array \<Rightarrow> string" where
  "hexTag headerTypeRaw =
     join '' '' (map (\<lambda>byte. padStart 2 CHR ''0'' (toString16 byte)) headerTypeRaw)"

section \<open>The byte swap of the image data\<close>

text \<open>
  The four codec functions that \<^verbatim>\<open>lib/zlib.ts\<close> exports wrap the functions of the same
  names of an external library (\<^verbatim>\<open>deflate\<close> and \<^verbatim>\<open>inflate\<close> for the zlib-wrapped
  stream, \<^verbatim>\<open>deflateRaw\<close> and \<^verbatim>\<open>inflateRaw\<close> for the raw one) in a promise; they are
  parameters here. A call whose promise is rejected, because the library throws or
  yields no byte array, is \<open>Inl\<close>.
\<close>

record zlib =
  deflate :: "Uint8Array \<Rightarrow> error + Uint8Array"
  deflateRaw :: "Uint8Array \<Rightarrow> error + Uint8Array"
  inflate :: "Uint8Array \<Rightarrow> error + Uint8Array"
  inflateRaw :: "Uint8Array \<Rightarrow> error + Uint8Array"

text \<open>The table of \<^verbatim>\<open>{inflate, deflate}\<close> pairs, each pair written \<open>(inflate, deflate)\<close>.\<close>

definition byteSwapFunctionMap ::
  "zlib \<Rightarrow> ((Uint8Array \<Rightarrow> error + Uint8Array) \<times> (Uint8Array \<Rightarrow> error + Uint8Array)) list" where
  "byteSwapFunctionMap z = [(inflateRaw z, deflate z), (inflate z, deflateRaw z)]"

text \<open>
  The body of the inner loop of \<^verbatim>\<open>byteSwapIdat\<close>, for one pixel; the state is
  \<open>(newIdat, offset)\<close>. The loops run \<open>width\<close> and \<open>height\<close> times, as folds over
  \<open>[0..<width]\<close> and \<open>[0..<height]\<close>. An offset that leaves the array (the header's
  width and height are not checked against the decompressed length) reads
  \<^verbatim>\<open>undefined\<close> and stores nothing, whatever its value.
\<close>

definition swapPixel :: "Uint8Array \<Rightarrow> Uint8Array \<times> nat \<Rightarrow> Uint8Array \<times> nat" where
  "swapPixel decompressed s =
     (case s of (newIdat, offset) \<Rightarrow>
        let newIdat = store newIdat offset (load decompressed (offset + 2));
            newIdat = store newIdat (offset + 1) (load decompressed (offset + 1));
            newIdat = store newIdat (offset + 2) (load decompressed offset);
            newIdat = store newIdat (offset + 3) (load decompressed (offset + 3))
        in (newIdat, offset + 4))"

definition swapScanline :: "Uint8Array \<Rightarrow> nat \<Rightarrow> Uint8Array \<times> nat \<Rightarrow> Uint8Array \<times> nat" where
  "swapScanline decompressed width s =
     (case s of (newIdat, offset) \<Rightarrow>
        let newIdat = store newIdat offset (load decompressed offset);
            offset = offset + 1
        in fold (\<lambda>j. swapPixel decompressed) [0..<width] (newIdat, offset))"

text \<open>
  The scanline walk of \<^verbatim>\<open>byteSwapIdat\<close>, from the allocation of \<^verbatim>\<open>newIdat\<close> to the end
  of the outer loop.
\<close>

definition swapScanlines :: "Uint8Array \<Rightarrow> nat \<Rightarrow> nat \<Rightarrow> Uint8Array" where
  "swapScanlines decompressed width height =
     fst (fold (\<lambda>i. swapScanline decompressed width) [0..<height]
            (replicate (length decompressed) 0, 0))"

definition byteSwapIdat :: "zlib \<Rightarrow> Uint8Array \<Rightarrow> nat \<Rightarrow> nat \<Rightarrow> bool \<Rightarrow> error + Uint8Array" where
  "byteSwapIdat z idat width height isCgbi =
     (let (inflate, deflate) = byteSwapFunctionMap z ! (if isCgbi then 0 else 1)
      in case inflate idat of
           Inl e \<Rightarrow> Inl e
         | Inr decompressed \<Rightarrow> deflate (swapScanlines decompressed width height))"

section \<open>The converter\<close>

record Reader =
  buffer :: Uint8Array
  offset :: nat

definition read :: "nat \<Rightarrow> Reader \<Rightarrow> Uint8Array \<times> Reader" where
  "read bytes r =
     (let r = r\<lparr>offset := offset r + bytes\<rparr>
      in (subarray (buffer r) (offset r - bytes) (offset r), r))"

text \<open>
  The header fields as \<^verbatim>\<open>convert\<close> reads them: a field that lies after the end of
  \<^verbatim>\<open>headerData\<close> is \<^verbatim>\<open>undefined\<close>. Only the width and the height are used.
\<close>

record PngHeaderData =
  width :: nat
  height :: nat
  bitDepth :: "byte option"
  colorType :: "byte option"
  compressMethod :: "byte option"
  filterMethod :: "byte option"
  interlaceMethod :: "byte option"

text \<open>
  The loop over the rest of the chunks. The state is the reader, \<^verbatim>\<open>result\<close> and
  \<^verbatim>\<open>idat\<close>; every round moves the reader forward by at least 12 bytes.
\<close>

function scanChunks ::
  "Uint8Array \<Rightarrow> Reader \<Rightarrow> Uint8Array list \<Rightarrow> Uint8Array list \<Rightarrow> Uint8Array list \<times> Uint8Array list" where
  "scanChunks data reader result idat =
     (if offset reader < length data then
        (let (len, reader) = read 4 reader;
             (chunkTypeRaw, reader) = read 4 reader;
             chunkType = fromCharCode chunkTypeRaw;
             (chunkData, reader) = read (toNumber len) reader;
             (crc, reader) = read 4 reader
         in if chunkType = ''IDAT'' then scanChunks data reader result (idat @ [chunkData])
            else if chunkType = ''iDOT'' then scanChunks data reader result idat
            else if chunkType = ''IEND'' then (result, idat)
            else scanChunks data reader (result @ [len, chunkTypeRaw, chunkData, crc]) idat)
      else (result, idat))"
  by pat_completeness auto
termination
  by (relation "measure (\<lambda>(data, reader, result, idat). length data - offset reader)")
     (auto simp add: read_def Let_def)

declare scanChunks.simps [simp del]

text \<open>
  \<^verbatim>\<open>convert\<close>, with the codec and \<^verbatim>\<open>calculateCRC\<close> of \<^verbatim>\<open>lib/crc.js\<close> as parameters;
  the checksum is an integer for a tag and a byte array.
\<close>

definition convert :: "zlib \<Rightarrow> (string \<Rightarrow> Uint8Array \<Rightarrow> int) \<Rightarrow> Uint8Array \<Rightarrow> error + Uint8Array" where
  "convert z calculateCRC data =
     (let reader = \<lparr>buffer = data, offset = 0\<rparr>;
          result = [PNG_HEADER];
          (magic, reader) = read 8 reader
      in if \<not> hasPngHeader magic then Inl (Error ''Data is not a PNG file.'')
         else
           let (marker, reader) = read 8 reader;
               isCgbi = hasCgbiChunk marker 0;
               reader = (if isCgbi then reader\<lparr>offset := offset reader + 8\<rparr>
                         else reader\<lparr>offset := offset reader - 8\<rparr>);
               result = (if isCgbi then result else result @ [CGBI_CHUNK, CGBI_BGRA]);
               (headerLength, reader) = read 4 reader;
               (headerTypeRaw, reader) = read 4 reader;
               headerType = fromCharCode headerTypeRaw
           in if headerType \<noteq> ''IHDR'' then
                Inl (Error (''Invalid PNG header: '' @ hexTag headerTypeRaw))
              else
                let (headerData, reader) = read (toNumber headerLength) reader;
                    (headerCRC, reader) = read 4 reader;
                    header = \<lparr>width = toNumber (subarray headerData 0 4),
                              height = toNumber (subarray headerData 4 8),
                              bitDepth = load headerData 8,
                              colorType = load headerData 9,
                              compressMethod = load headerData 10,
                              filterMethod = load headerData 11,
                              interlaceMethod = load headerData 12\<rparr>;
                    result = result @ [headerLength, headerTypeRaw, headerData, headerCRC];
                    (result, idat) = scanChunks data reader result [];
                    raw = concatUint8Array idat
                in case byteSwapIdat z raw (width header) (height header) isCgbi of
                     Inl e \<Rightarrow> Inl e
                   | Inr newIdat \<Rightarrow>
                       Inr (concatUint8Array (result @
                         [toUint8Array (int (length newIdat)),
                          [0x49, 0x44, 0x41, 0x54],
                          newIdat,
                          toUint8Array (calculateCRC ''IDAT'' newIdat),
                          [0x00, 0x00, 0x00, 0x00,
                           0x49, 0x45, 0x4e, 0x44,
                           0xae, 0x42, 0x60, 0x82]])))"

section \<open>The input and the output as chunk sequences\<close>

text \<open>
  The definitions of this section are not code of the converter. They describe a byte
  array as the chunks that a scan from an offset decodes, so that the statements about
  \<^verbatim>\<open>convert\<close> can speak of chunks. A chunk is the four byte arrays that one round of
  the loop reads; on a truncated input the arrays are shorter than the length field
  says, as the views of the code are.
\<close>

record chunk =
  lengthRaw :: Uint8Array
  typeRaw :: Uint8Array
  payload :: Uint8Array
  crcRaw :: Uint8Array

definition chunkAt :: "Uint8Array \<Rightarrow> nat \<Rightarrow> chunk" where
  "chunkAt data off =
     (let n = toNumber (subarray data off (off + 4))
      in \<lparr>lengthRaw = subarray data off (off + 4),
          typeRaw = subarray data (off + 4) (off + 8),
          payload = subarray data (off + 8) (off + 8 + n),
          crcRaw = subarray data (off + 8 + n) (off + 8 + n + 4)\<rparr>)"

definition chunkEnd :: "Uint8Array \<Rightarrow> nat \<Rightarrow> nat" where
  "chunkEnd data off = off + 8 + toNumber (subarray data off (off + 4)) + 4"

definition chunkBytes :: "chunk \<Rightarrow> Uint8Array" where
  "chunkBytes c = lengthRaw c @ typeRaw c @ payload c @ crcRaw c"

definition chunkType :: "chunk \<Rightarrow> string" where
  "chunkType c = fromCharCode (typeRaw c)"

text \<open>
  The chunks that a scan from \<open>off\<close> decodes: it goes on while the offset is inside the
  array and stops after a chunk of type IEND.
\<close>

function chunksFrom :: "Uint8Array \<Rightarrow> nat \<Rightarrow> chunk list" where
  "chunksFrom data off =
     (if off < length data then
        chunkAt data off #
          (if chunkType (chunkAt data off) = ''IEND'' then []
           else chunksFrom data (chunkEnd data off))
      else [])"
  by pat_completeness auto
termination
  by (relation "measure (\<lambda>(data, off). length data - off)") (auto simp add: chunkEnd_def)

declare chunksFrom.simps [simp del]

text \<open>The chunks that the loop re-emits, and those whose payload it collects.\<close>

definition passedThrough :: "chunk \<Rightarrow> bool" where
  "passedThrough c =
     (chunkType c \<noteq> ''IDAT'' \<and> chunkType c \<noteq> ''iDOT'' \<and> chunkType c \<noteq> ''IEND'')"

definition isIdat :: "chunk \<Rightarrow> bool" where
  "isIdat c = (chunkType c = ''IDAT'')"

definition passThroughType :: "chunk \<Rightarrow> bool" where
  "passThroughType c =
     (chunkType c \<noteq> ''IHDR'' \<and> chunkType c \<noteq> ''IDAT'' \<and> chunkType c \<noteq> ''iDOT'' \<and>
      chunkType c \<noteq> ''IEND'')"

text \<open>A chunk whose four parts are all there: nothing of it was cut off.\<close>

definition wellFramed :: "chunk \<Rightarrow> bool" where
  "wellFramed c =
     (length (lengthRaw c) = 4 \<and> length (typeRaw c) = 4 \<and>
      length (payload c) = toNumber (lengthRaw c) \<and> length (crcRaw c) = 4)"

definition IEND_CHUNK :: Uint8Array where
  "IEND_CHUNK = [0x00, 0x00, 0x00, 0x00, 0x49, 0x45, 0x4e, 0x44, 0xae, 0x42, 0x60, 0x82]"

text \<open>
  Where the IHDR chunk is expected: after the magic header, or after the 16 bytes of the
  CgBI marker when the input has it.
\<close>

definition firstChunkOffset :: "Uint8Array \<Rightarrow> nat" where
  "firstChunkOffset data = (if hasCgbiChunk data 8 then 24 else 8)"

definition headerChunk :: "Uint8Array \<Rightarrow> chunk" where
  "headerChunk data = chunkAt data (firstChunkOffset data)"

definition restChunks :: "Uint8Array \<Rightarrow> chunk list" where
  "restChunks data = chunksFrom data (chunkEnd data (firstChunkOffset data))"

definition imageWidth :: "Uint8Array \<Rightarrow> nat" where
  "imageWidth data = toNumber (subarray (payload (headerChunk data)) 0 4)"

definition imageHeight :: "Uint8Array \<Rightarrow> nat" where
  "imageHeight data = toNumber (subarray (payload (headerChunk data)) 4 8)"

definition idatStream :: "Uint8Array \<Rightarrow> Uint8Array" where
  "idatStream data = concat (map payload (filter isIdat (restChunks data)))"

definition rebuiltIdat :: "zlib \<Rightarrow> Uint8Array \<Rightarrow> error + Uint8Array" where
  "rebuiltIdat z data =
     byteSwapIdat z (idatStream data) (imageWidth data) (imageHeight data) (hasCgbiChunk data 8)"

definition complete :: "Uint8Array \<Rightarrow> bool" where
  "complete data = (wellFramed (headerChunk data) \<and> list_all wellFramed (restChunks data))"

text \<open>The chunks that \<^verbatim>\<open>convert\<close> writes after the magic header.\<close>

definition cgbiChunk :: chunk where
  "cgbiChunk = \<lparr>lengthRaw = [0x00, 0x00, 0x00, 0x04], typeRaw = [0x43, 0x67, 0x42, 0x49],
                 payload = [0x50, 0x00, 0x20, 0x06], crcRaw = [0x2c, 0xb8, 0x77, 0x66]\<rparr>"

definition idatChunk :: "(string \<Rightarrow> Uint8Array \<Rightarrow> int) \<Rightarrow> Uint8Array \<Rightarrow> chunk" where
  "idatChunk calculateCRC newIdat =
     \<lparr>lengthRaw = toUint8Array (int (length newIdat)), typeRaw = [0x49, 0x44, 0x41, 0x54],
      payload = newIdat, crcRaw = toUint8Array (calculateCRC ''IDAT'' newIdat)\<rparr>"

definition iendChunk :: chunk where
  "iendChunk = \<lparr>lengthRaw = [0x00, 0x00, 0x00, 0x00], typeRaw = [0x49, 0x45, 0x4e, 0x44],
                 payload = [], crcRaw = [0xae, 0x42, 0x60, 0x82]\<rparr>"

definition idatFrame :: "(string \<Rightarrow> Uint8Array \<Rightarrow> int) \<Rightarrow> Uint8Array \<Rightarrow> Uint8Array" where
  "idatFrame calculateCRC newIdat =
     toUint8Array (int (length newIdat)) @ [0x49, 0x44, 0x41, 0x54] @ newIdat @
     toUint8Array (calculateCRC ''IDAT'' newIdat)"

definition writtenChunks :: "(string \<Rightarrow> Uint8Array \<Rightarrow> int) \<Rightarrow> Uint8Array \<Rightarrow> Uint8Array \<Rightarrow> chunk list" where
  "writtenChunks calculateCRC data newIdat =
     (if hasCgbiChunk data 8 then [] else [cgbiChunk]) @
     headerChunk data # filter passedThrough (restChunks data) @
     [idatChunk calculateCRC newIdat, iendChunk]"

text \<open>
  What the claims need of the external codec: inflating what was deflated gives the
  input back, for the wrapped pair and for the raw pair.
\<close>

definition losslessCodec :: "zlib \<Rightarrow> bool" where
  "losslessCodec z =
     ((\<forall>x y. deflate z x = Inr y \<longrightarrow> inflate z y = Inr x) \<and>
      (\<forall>x y. deflateRaw z x = Inr y \<longrightarrow> inflateRaw z y = Inr x))"

text \<open>
  The byte swap as a function on lists: \<open>swapRB\<close> exchanges bytes 0 and 2 of every
  group of four bytes, and \<open>swapRows w h\<close> does so on \<open>h\<close> rows of one filter byte
  and \<open>w\<close> pixels each. The loops of \<^verbatim>\<open>byteSwapIdat\<close> are shown to compute them.
\<close>

fun swapRB :: "Uint8Array \<Rightarrow> Uint8Array" where
  "swapRB (r # g # b # a # rest) = b # g # r # a # swapRB rest"
| "swapRB xs = xs"

fun swapRows :: "nat \<Rightarrow> nat \<Rightarrow> Uint8Array \<Rightarrow> Uint8Array" where
  "swapRows w 0 xs = []"
| "swapRows w (Suc h) xs =
     take 1 xs @ swapRB (take (4 * w) (drop 1 xs)) @ swapRows w h (drop (1 + 4 * w) xs)"

section \<open>A codec, a checksum and inputs for the examples\<close>

text \<open>
  The codec and the checksum are parameters of the model. The examples instantiate them
  with a codec that writes one stored DEFLATE block (raw, or in a zlib wrapper with its
  Adler-32 trailer) and reads nothing else, and with the sum of the bytes in the place of
  CRC-32. \<open>examplePng\<close> is a 2 by 1 RGBA image with a gAMA chunk, an iDOT chunk, the
  image data split over two IDAT chunks, and a tEXt chunk after them.
\<close>

definition adler32 :: "Uint8Array \<Rightarrow> nat" where
  "adler32 data =
     (case fold (\<lambda>b (a, s). let a = (a + unat b) mod 65521 in (a, (s + a) mod 65521)) data (1, 0) of
        (a, s) \<Rightarrow> s * 65536 + a)"

definition storedDeflateRaw :: "Uint8Array \<Rightarrow> error + Uint8Array" where
  "storedDeflateRaw x =
     (if length x < 65536 then
        Inr ([0x01, of_nat (length x mod 256), of_nat (length x div 256),
              NOT (of_nat (length x mod 256)), NOT (of_nat (length x div 256))] @ x)
      else Inl (Error ''too long for one stored block''))"

fun storedInflateRaw :: "Uint8Array \<Rightarrow> error + Uint8Array" where
  "storedInflateRaw (b # lo # hi # nlo # nhi # x) =
     (if b = 0x01 \<and> nlo = NOT lo \<and> nhi = NOT hi \<and> length x = unat lo + 256 * unat hi
      then Inr x else Inl (Error ''invalid stored block''))"
| "storedInflateRaw y = Inl (Error ''unexpected end of file'')"

definition storedDeflate :: "Uint8Array \<Rightarrow> error + Uint8Array" where
  "storedDeflate x =
     (case storedDeflateRaw x of
        Inl e \<Rightarrow> Inl e
      | Inr y \<Rightarrow> Inr ([0x78, 0x01] @ y @ toUint8Array (int (adler32 x))))"

definition storedInflate :: "Uint8Array \<Rightarrow> error + Uint8Array" where
  "storedInflate y =
     (if take 2 y = [0x78, 0x01] \<and> 6 \<le> length y then
        (case storedInflateRaw (take (length y - 6) (drop 2 y)) of
           Inl e \<Rightarrow> Inl e
         | Inr x \<Rightarrow>
             if drop (length y - 4) y = toUint8Array (int (adler32 x)) then Inr x
             else Inl (Error ''incorrect data check''))
      else Inl (Error ''incorrect header check''))"

definition exampleZlib :: zlib where
  "exampleZlib = \<lparr>deflate = storedDeflate, deflateRaw = storedDeflateRaw,
                   inflate = storedInflate, inflateRaw = storedInflateRaw\<rparr>"

definition exampleCRC :: "string \<Rightarrow> Uint8Array \<Rightarrow> int" where
  "exampleCRC type data = int (sum_list (map of_char type) + sum_list (map unat data))"

definition exampleIHDR :: chunk where
  "exampleIHDR = \<lparr>lengthRaw = [0x00, 0x00, 0x00, 0x0d], typeRaw = [0x49, 0x48, 0x44, 0x52],
     payload = [0x00, 0x00, 0x00, 0x02, 0x00, 0x00, 0x00, 0x01, 0x08, 0x06, 0x00, 0x00, 0x00],
     crcRaw = [0xf4, 0x22, 0x7f, 0x8a]\<rparr>"

definition exampleGAMA :: chunk where
  "exampleGAMA = \<lparr>lengthRaw = [0x00, 0x00, 0x00, 0x04], typeRaw = [0x67, 0x41, 0x4d, 0x41],
     payload = [0x00, 0x00, 0xb1, 0x8f], crcRaw = [0x0b, 0xfc, 0x61, 0x05]\<rparr>"

definition exampleIDOT :: chunk where
  "exampleIDOT = \<lparr>lengthRaw = [0x00, 0x00, 0x00, 0x04], typeRaw = [0x69, 0x44, 0x4f, 0x54],
     payload = [0x00, 0x00, 0x00, 0x01], crcRaw = [0x5e, 0x58, 0xd4, 0xb7]\<rparr>"

definition exampleIDAT1 :: chunk where
  "exampleIDAT1 = \<lparr>lengthRaw = [0x00, 0x00, 0x00, 0x08], typeRaw = [0x49, 0x44, 0x41, 0x54],
     payload = [0x78, 0x01, 0x01, 0x09, 0x00, 0xf6, 0xff, 0x00],
     crcRaw = [0xd3, 0xab, 0x9f, 0xd2]\<rparr>"

definition exampleIDAT2 :: chunk where
  "exampleIDAT2 = \<lparr>lengthRaw = [0x00, 0x00, 0x00, 0x0c], typeRaw = [0x49, 0x44, 0x41, 0x54],
     payload = [0x10, 0x20, 0x30, 0xff, 0x40, 0x50, 0x60, 0x80, 0x0a, 0xb4, 0x02, 0xd0],
     crcRaw = [0x4b, 0xd1, 0x98, 0x3b]\<rparr>"

definition exampleTEXT :: chunk where
  "exampleTEXT = \<lparr>lengthRaw = [0x00, 0x00, 0x00, 0x03], typeRaw = [0x74, 0x45, 0x58, 0x74],
     payload = [0x6b, 0x00, 0x76], crcRaw = [0xcb, 0x04, 0xf3, 0x90]\<rparr>"

definition exampleChunks :: "chunk list" where
  "exampleChunks = [exampleGAMA, exampleIDOT, exampleIDAT1, exampleIDAT2, exampleTEXT]"

definition examplePixels :: Uint8Array where
  "examplePixels = [0x00, 0x10, 0x20, 0x30, 0xff, 0x40, 0x50, 0x60, 0x80]"

definition examplePng :: Uint8Array where
  "examplePng =
    [0x89, 0x50, 0x4e, 0x47, 0x0d, 0x0a, 0x1a, 0x0a, 0x00, 0x00, 0x00, 0x0d, 0x49, 0x48,
     0x44, 0x52, 0x00, 0x00, 0x00, 0x02, 0x00, 0x00, 0x00, 0x01, 0x08, 0x06, 0x00, 0x00,
     0x00, 0xf4, 0x22, 0x7f, 0x8a, 0x00, 0x00, 0x00, 0x04, 0x67, 0x41, 0x4d, 0x41, 0x00,
     0x00, 0xb1, 0x8f, 0x0b, 0xfc, 0x61, 0x05, 0x00, 0x00, 0x00, 0x04, 0x69, 0x44, 0x4f,
     0x54, 0x00, 0x00, 0x00, 0x01, 0x5e, 0x58, 0xd4, 0xb7, 0x00, 0x00, 0x00, 0x08, 0x49,
     0x44, 0x41, 0x54, 0x78, 0x01, 0x01, 0x09, 0x00, 0xf6, 0xff, 0x00, 0xd3, 0xab, 0x9f,
     0xd2, 0x00, 0x00, 0x00, 0x0c, 0x49, 0x44, 0x41, 0x54, 0x10, 0x20, 0x30, 0xff, 0x40,
     0x50, 0x60, 0x80, 0x0a, 0xb4, 0x02, 0xd0, 0x4b, 0xd1, 0x98, 0x3b, 0x00, 0x00, 0x00,
     0x03, 0x74, 0x45, 0x58, 0x74, 0x6b, 0x00, 0x76, 0xcb, 0x04, 0xf3, 0x90, 0x00, 0x00,
     0x00, 0x00, 0x49, 0x45, 0x4e, 0x44, 0xae, 0x42, 0x60, 0x82]"

definition exampleCgbi :: Uint8Array where
  "exampleCgbi =
    [0x89, 0x50, 0x4e, 0x47, 0x0d, 0x0a, 0x1a, 0x0a, 0x00, 0x00, 0x00, 0x04, 0x43, 0x67,
     0x42, 0x49, 0x50, 0x00, 0x20, 0x06, 0x2c, 0xb8, 0x77, 0x66, 0x00, 0x00, 0x00, 0x0d,
     0x49, 0x48, 0x44, 0x52, 0x00, 0x00, 0x00, 0x02, 0x00, 0x00, 0x00, 0x01, 0x08, 0x06,
     0x00, 0x00, 0x00, 0xf4, 0x22, 0x7f, 0x8a, 0x00, 0x00, 0x00, 0x04, 0x67, 0x41, 0x4d,
     0x41, 0x00, 0x00, 0xb1, 0x8f, 0x0b, 0xfc, 0x61, 0x05, 0x00, 0x00, 0x00, 0x03, 0x74,
     0x45, 0x58, 0x74, 0x6b, 0x00, 0x76, 0xcb, 0x04, 0xf3, 0x90, 0x00, 0x00, 0x00, 0x0e,
     0x49, 0x44, 0x41, 0x54, 0x01, 0x09, 0x00, 0xf6, 0xff, 0x00, 0x30, 0x20, 0x10, 0xff,
     0x60, 0x50, 0x40, 0x80, 0x00, 0x00, 0x05, 0xf0, 0x00, 0x00, 0x00, 0x00, 0x49, 0x45,
     0x4e, 0x44, 0xae, 0x42, 0x60, 0x82]"

definition exampleBack :: Uint8Array where
  "exampleBack =
    [0x89, 0x50, 0x4e, 0x47, 0x0d, 0x0a, 0x1a, 0x0a, 0x00, 0x00, 0x00, 0x0d, 0x49, 0x48,
     0x44, 0x52, 0x00, 0x00, 0x00, 0x02, 0x00, 0x00, 0x00, 0x01, 0x08, 0x06, 0x00, 0x00,
     0x00, 0xf4, 0x22, 0x7f, 0x8a, 0x00, 0x00, 0x00, 0x04, 0x67, 0x41, 0x4d, 0x41, 0x00,
     0x00, 0xb1, 0x8f, 0x0b, 0xfc, 0x61, 0x05, 0x00, 0x00, 0x00, 0x03, 0x74, 0x45, 0x58,
     0x74, 0x6b, 0x00, 0x76, 0xcb, 0x04, 0xf3, 0x90, 0x00, 0x00, 0x00, 0x14, 0x49, 0x44,
     0x41, 0x54, 0x78, 0x01, 0x01, 0x09, 0x00, 0xf6, 0xff, 0x00, 0x10, 0x20, 0x30, 0xff,
     0x40, 0x50, 0x60, 0x80, 0x0a, 0xb4, 0x02, 0xd0, 0x00, 0x00, 0x07, 0xf9, 0x00, 0x00,
     0x00, 0x00, 0x49, 0x45, 0x4e, 0x44, 0xae, 0x42, 0x60, 0x82]"


text \<open>
  \<open>exampleTruncated\<close> is cut off in its last chunk: after the IHDR chunk and one IDAT
  chunk it ends with the length field and the tag of a tEXt chunk that announces 10 bytes
  of payload. \<open>exampleTruncatedOut\<close> is what \<^verbatim>\<open>convert\<close> returns for it, and
  \<open>scannedTEXT\<close> and \<open>scannedIDOT\<close> are the chunks that a scan of that output decodes
  after the IHDR chunk.
\<close>

definition truncatedIDAT :: chunk where
  "truncatedIDAT = \<lparr>lengthRaw = [0x00, 0x00, 0x00, 0x14], typeRaw = [0x49, 0x44, 0x41, 0x54],
     payload = [0x78, 0x01, 0x01, 0x09, 0x00, 0xf6, 0xff, 0x00, 0x00, 0x00, 0x00, 0x00, 0x4f, 0x44,
                0x69, 0x54, 0x03, 0x37, 0x01, 0x51],
     crcRaw = [0x69, 0xf8, 0x5e, 0x3e]\<rparr>"

definition truncatedTEXT :: chunk where
  "truncatedTEXT = \<lparr>lengthRaw = [0x00, 0x00, 0x00, 0x0a], typeRaw = [0x74, 0x45, 0x58, 0x74],
     payload = [], crcRaw = []\<rparr>"


definition exampleTruncated :: Uint8Array where
  "exampleTruncated =
    [0x89, 0x50, 0x4e, 0x47, 0x0d, 0x0a, 0x1a, 0x0a, 0x00, 0x00, 0x00, 0x0d, 0x49, 0x48,
     0x44, 0x52, 0x00, 0x00, 0x00, 0x02, 0x00, 0x00, 0x00, 0x01, 0x08, 0x06, 0x00, 0x00,
     0x00, 0xf4, 0x22, 0x7f, 0x8a, 0x00, 0x00, 0x00, 0x14, 0x49, 0x44, 0x41, 0x54, 0x78,
     0x01, 0x01, 0x09, 0x00, 0xf6, 0xff, 0x00, 0x00, 0x00, 0x00, 0x00, 0x4f, 0x44, 0x69,
     0x54, 0x03, 0x37, 0x01, 0x51, 0x69, 0xf8, 0x5e, 0x3e, 0x00, 0x00, 0x00, 0x0a, 0x74,
     0x45, 0x58, 0x74]"


definition scannedTEXT :: chunk where
  "scannedTEXT = \<lparr>lengthRaw = [0x00, 0x00, 0x00, 0x0a], typeRaw = [0x74, 0x45, 0x58, 0x74],
     payload = [0x00, 0x00, 0x00, 0x0e, 0x49, 0x44, 0x41, 0x54, 0x01, 0x09],
     crcRaw = [0x00, 0xf6, 0xff, 0x00]\<rparr>"

definition scannedIDOT :: chunk where
  "scannedIDOT = \<lparr>lengthRaw = [0x00, 0x00, 0x00, 0x00], typeRaw = [0x69, 0x44, 0x4f, 0x54],
     payload = [], crcRaw = [0x00, 0x00, 0x04, 0x71]\<rparr>"

section \<open>Byte arrays, numbers and strings\<close>

lemma isEquals_iff: "isEquals a b \<longleftrightarrow> a = b"
  using list_eq_iff_nth_eq [of a b] by (auto simp add: isEquals_def list_all_iff)

lemma hasPngHeader_iff: "hasPngHeader data \<longleftrightarrow> take 8 data = PNG_HEADER"
  by (simp add: hasPngHeader_def isEquals_iff subarray_def)

lemma hasCgbiChunk_iff: "hasCgbiChunk data off \<longleftrightarrow> take 8 (drop off data) = CGBI_CHUNK"
  by (simp add: hasCgbiChunk_def isEquals_iff subarray_def)

lemma read_eq:
  "read n r = (subarray (buffer r) (offset r) (offset r + n), r\<lparr>offset := offset r + n\<rparr>)"
  by (simp add: read_def Let_def)

lemma word_of_int_smod: "(word_of_int (d smod 256) :: byte) = word_of_int d"
proof -
  have "(d smod 256) mod 256 = d mod 256"
  proof (cases "0 \<le> d")
    case True
    then show ?thesis by (simp add: smod_int_alt_def sgn_if)
  next
    case False
    then have "d smod 256 = - ((- d) mod 256)"
      by (simp add: smod_int_alt_def sgn_if)
    then show ?thesis
      by (metis mod_minus_eq minus_minus)
  qed
  then show ?thesis
    by (simp add: word_of_int_eq_iff take_bit_eq_mod)
qed

lemma toUint8Array_eq:
  "toUint8Array d =
     [word_of_int (d div 16777216), word_of_int (d div 65536), word_of_int (d div 256), word_of_int d]"
proof -
  have r: "replicate 4 (0::byte) = [0, 0, 0, 0]"
    by (simp add: numeral_eq_Suc)
  have u: "[a, b, c, e][3 := x] = [a, b, c, x]" "[a, b, c, e][2 := x] = [a, b, x, e]"
    for a b c e x :: byte
    by (simp_all add: numeral_eq_Suc)
  have u1: "[a, b, c, e][1 := x] = [a, x, c, e]" for a b c e x :: byte
    by simp
  have d2: "d div 256 div 256 = d div 65536"
    using zdiv_zmult2_eq [of 256 d 256] by simp
  have d3: "d div 65536 div 256 = d div 16777216"
    using zdiv_zmult2_eq [of 256 d 65536] by simp
  show ?thesis
    unfolding toUint8Array_def r
    by (simp add: u u1 word_of_int_smod d2 d3)
qed

lemma length_toUint8Array [simp]: "length (toUint8Array d) = 4"
  by (simp add: toUint8Array_eq)

lemma toNumber4:
  "toNumber [a, b, c, e] = ((unat a * 256 + unat b) * 256 + unat c) * 256 + unat e"
  by (simp add: toNumber_def)

lemma unat_byte_of_int: "unat (word_of_int (int m) :: byte) = m mod 256"
  by (simp add: unat_of_nat)

lemma toNumber_toUint8Array:
  assumes "n < 4294967296"
  shows "toNumber (toUint8Array (int n)) = n"
proof -
  define q1 q2 q3 where "q1 = n div 256" and "q2 = q1 div 256" and "q3 = q2 div 256"
  have e2: "n div 65536 = q2"
    using div_mult2_eq [of n 256 256] by (simp add: q1_def q2_def)
  have e3: "n div 16777216 = q3"
    using div_mult2_eq [of n 65536 256] e2 by (simp add: q3_def)
  have d: "int n div 16777216 = int q3" "int n div 65536 = int q2" "int n div 256 = int q1"
    using e2 e3 by (simp_all add: zdiv_int q1_def)
  have "q3 < 256" using assms e3 by auto
  then have top: "q3 mod 256 = q3" by simp
  have "toNumber (toUint8Array (int n)) =
      ((q3 * 256 + q2 mod 256) * 256 + q1 mod 256) * 256 + n mod 256"
    unfolding toUint8Array_eq toNumber4 d unat_byte_of_int top ..
  also have "\<dots> = n"
    unfolding q3_def q2_def q1_def by simp
  finally show ?thesis .
qed

lemma subarray_append:
  "subarray (pre @ xs) (length pre + a) (length pre + b) = subarray xs a b"
  by (simp add: subarray_def)

lemma subarray_adjacent:
  assumes "a \<le> b" "b \<le> c"
  shows "subarray xs a b @ subarray xs b c = subarray xs a c"
proof -
  have "take ((b - a) + (c - b)) (drop a xs) =
      take (b - a) (drop a xs) @ take (c - b) (drop (b - a) (drop a xs))"
    by (rule take_add)
  moreover have "(b - a) + (c - b) = c - a" "b - a + a = b"
    using assms by simp_all
  ultimately show ?thesis
    by (simp add: subarray_def)
qed

lemma fromCharCode_inj: "fromCharCode a = fromCharCode b \<Longrightarrow> a = b"
proof (induction a arbitrary: b)
  case Nil
  then show ?case by (simp add: fromCharCode_def)
next
  case (Cons x xs)
  then obtain y ys where b: "b = y # ys"
    by (cases b) (simp_all add: fromCharCode_def)
  from Cons.prems have h: "char_of (unat x) = char_of (unat y)" and t: "fromCharCode xs = fromCharCode ys"
    by (simp_all add: b fromCharCode_def)
  from h have "(of_char (char_of (unat x)) :: nat) = of_char (char_of (unat y))"
    by simp
  then have "unat x mod 256 = unat y mod 256"
    by (simp add: of_char_of)
  moreover have "unat x < 256" "unat y < 256"
    using unsigned_less [of x] unsigned_less [of y] by simp_all
  ultimately have "unat x = unat y" by simp
  then have "x = y" by (simp add: word_unat_eq_iff)
  with Cons.IH [OF t] b show ?case by simp
qed

lemma fromCharCode_IHDR: "fromCharCode tag = ''IHDR'' \<longleftrightarrow> tag = [0x49, 0x48, 0x44, 0x52]"
proof -
  have "fromCharCode [0x49, 0x48, 0x44, 0x52] = ''IHDR''"
    by (simp add: fromCharCode_def char_of_eq_iff)
  then show ?thesis
    using fromCharCode_inj by metis
qed



lemma length_PNG_HEADER: "length PNG_HEADER = 8"
  by (simp add: PNG_HEADER_def)

lemma length_cgbi_marker: "length (CGBI_CHUNK @ CGBI_BGRA) = 16"
  by (simp add: CGBI_CHUNK_def CGBI_BGRA_def)

section \<open>Format detection\<close>

text \<open>
  Claim C5. (as amended) \<^verbatim>\<open>isStandardPng\<close> and \<^verbatim>\<open>isCgbiPng\<close> are never both true, and
  both are false on a buffer that does not start with the magic header, in particular
  on every buffer shorter than 8 bytes. \<^verbatim>\<open>isCgbiPng\<close> is false on every buffer shorter
  than the 16 bytes it compares. \<^verbatim>\<open>isStandardPng\<close> is not: on a buffer of 8 to 15 bytes
  that starts with the magic header the marker comparison fails its length check, and
  the predicate, which negates it, is true. The predicates are total functions to
  \<open>bool\<close>: no buffer makes them fail.
\<close>

theorem detection_exclusive:
  "\<not> (isStandardPng data \<and> isCgbiPng data) \<and>
   (take 8 data \<noteq> PNG_HEADER \<longrightarrow> \<not> isStandardPng data \<and> \<not> isCgbiPng data) \<and>
   (length data < 8 \<longrightarrow> \<not> isStandardPng data \<and> \<not> isCgbiPng data) \<and>
   (length data < 16 \<longrightarrow> \<not> isCgbiPng data) \<and>
   (length data < 16 \<and> take 8 data = PNG_HEADER \<longrightarrow> isStandardPng data)"
proof -
  have short: "length data < 16 \<Longrightarrow> \<not> hasCgbiChunk data 8"
  proof
    assume l: "length data < 16" and h: "hasCgbiChunk data 8"
    from h have "take 8 (drop 8 data) = CGBI_CHUNK"
      by (simp add: hasCgbiChunk_iff)
    then have "length (take 8 (drop 8 data)) = length CGBI_CHUNK"
      by (rule arg_cong)
    then have "min (length data - 8) 8 = 8"
      by (simp add: CGBI_CHUNK_def)
    with l show False by simp
  qed
  have tiny: "length data < 8 \<Longrightarrow> \<not> hasPngHeader data"
  proof
    assume l: "length data < 8" and h: "hasPngHeader data"
    from h have "take 8 data = PNG_HEADER"
      by (simp add: hasPngHeader_iff)
    then have "length (take 8 data) = length PNG_HEADER"
      by (rule arg_cong)
    then have "min (length data) 8 = 8"
      by (simp add: PNG_HEADER_def)
    with l show False by simp
  qed
  show ?thesis
    using short tiny by (auto simp add: isStandardPng_def isCgbiPng_def hasPngHeader_iff)
qed

text \<open>
  The claim as it was stated, with both predicates false on every buffer shorter than
  the compared window, fails on the magic header alone: 8 bytes, shorter than the 16
  that are compared, and \<^verbatim>\<open>isStandardPng\<close> is true.
\<close>

theorem detection_short_buffer_counterexample:
  "length PNG_HEADER < 16 \<and> isStandardPng PNG_HEADER"
  by (simp add: isStandardPng_def hasPngHeader_iff hasCgbiChunk_iff PNG_HEADER_def CGBI_CHUNK_def)

theorem detection_exclusive_witness:
  "take 8 [0xff, 0xd8 :: byte] \<noteq> PNG_HEADER \<and> length [0xff, 0xd8 :: byte] < 8 \<and>
   \<not> isStandardPng [0xff, 0xd8] \<and> \<not> isCgbiPng [0xff, 0xd8] \<and>
   length PNG_HEADER < 16 \<and> take 8 PNG_HEADER = PNG_HEADER \<and>
   isStandardPng PNG_HEADER \<and> \<not> isCgbiPng PNG_HEADER"
  using detection_exclusive [of "[0xff, 0xd8]"] detection_exclusive [of PNG_HEADER]
  by (simp add: PNG_HEADER_def)

section \<open>The scanline walk computes the list-level byte swap\<close>

lemma upd4:
  assumes "off + 4 \<le> length xs"
  shows "xs[off := a, off + 1 := b, off + 2 := c, off + 3 := e] =
         take off xs @ [a, b, c, e] @ drop (off + 4) xs"
proof (rule nth_equalityI)
  show "length (xs[off := a, off + 1 := b, off + 2 := c, off + 3 := e]) =
        length (take off xs @ [a, b, c, e] @ drop (off + 4) xs)"
    using assms by simp
next
  fix i assume "i < length (xs[off := a, off + 1 := b, off + 2 := c, off + 3 := e])"
  then have i: "i < length xs" by simp
  consider "i < off" | "i = off" | "i = off + 1" | "i = off + 2" | "i = off + 3" | "off + 4 \<le> i"
    by linarith
  then show "xs[off := a, off + 1 := b, off + 2 := c, off + 3 := e] ! i =
        (take off xs @ [a, b, c, e] @ drop (off + 4) xs) ! i"
  proof cases
    case 6
    then obtain k where k: "i = off + 4 + k" using le_Suc_ex by blast
    show ?thesis using i assms unfolding k
      by (simp add: nth_append)
  qed (use i assms in \<open>simp_all add: nth_append\<close>)
qed

lemma length_swapRB [simp]: "length (swapRB xs) = length xs"
  by (induction xs rule: swapRB.induct) auto

lemma swapRB_swapRB [simp]: "swapRB (swapRB xs) = xs"
  by (induction xs rule: swapRB.induct) auto

lemma fold_const_Suc: "fold (\<lambda>j. f) [0..<Suc n] s = fold (\<lambda>j. f) [0..<n] (f s)"
proof -
  have "fold (\<lambda>j. f) [0..<n] s = (f ^^ n) s" for n s
    by (induction n arbitrary: s) simp_all
  then show ?thesis
    by (simp only: funpow_Suc_right o_apply)
qed

lemma drop_app_len: "length A = k \<Longrightarrow> drop (k + m) (A @ B) = drop m B"
  by simp

lemma take_app_len: "length A = k \<Longrightarrow> take k (A @ B) = A"
  by simp

lemma take4: "take (4 + m) (a # b # c # e # xs) = a # b # c # e # take m xs"
proof -
  have "take (Suc (Suc (Suc (Suc m)))) (a # b # c # e # xs) = a # b # c # e # take m xs"
    by simp
  then show ?thesis by (simp add: numeral_eq_Suc)
qed

lemma drop4:
  assumes "off + 4 \<le> length d"
  shows "drop off d = d ! off # d ! (off + 1) # d ! (off + 2) # d ! (off + 3) # drop (off + 4) d"
proof -
  have "drop off d = d ! off # drop (Suc off) d"
    using assms by (simp add: Cons_nth_drop_Suc)
  also have "drop (Suc off) d = d ! (off + 1) # drop (Suc (Suc off)) d"
    using assms by (simp add: Cons_nth_drop_Suc)
  also have "drop (Suc (Suc off)) d = d ! (off + 2) # drop (Suc (Suc (Suc off))) d"
    using assms by (simp add: Cons_nth_drop_Suc)
  also have "drop (Suc (Suc (Suc off))) d = d ! (off + 3) # drop (off + 4) d"
    using assms by (simp add: Cons_nth_drop_Suc [symmetric] numeral_eq_Suc)
  finally show ?thesis .
qed

lemma swapPixel_step:
  assumes "length new = length d" "off + 4 \<le> length d"
  shows "swapPixel d (new, off) =
    (take off new @ [d ! (off + 2), d ! (off + 1), d ! off, d ! (off + 3)] @ drop (off + 4) new, off + 4)"
  using assms upd4 [of off new "d ! (off + 2)" "d ! (off + 1)" "d ! off" "d ! (off + 3)"]
  by (simp add: swapPixel_def store_def load_def)

lemma swapPixels_fold:
  assumes "length new = length d" "off + 4 * n \<le> length d"
  shows "fold (\<lambda>j. swapPixel d) [0..<n] (new, off) =
    (take off new @ swapRB (take (4 * n) (drop off d)) @ drop (off + 4 * n) new, off + 4 * n)"
  using assms
proof (induction n arbitrary: new off)
  case 0
  then show ?case by simp
next
  case (Suc n)
  let ?px = "[d ! (off + 2), d ! (off + 1), d ! off, d ! (off + 3)]"
  let ?new = "take off new @ ?px @ drop (off + 4) new"
  have bound: "off + 4 \<le> length d" using Suc.prems by simp
  have len: "length ?new = length d" using Suc.prems by simp
  have step: "swapPixel d (new, off) = (?new, off + 4)"
    using Suc.prems(1) bound by (rule swapPixel_step)
  have ih: "fold (\<lambda>j. swapPixel d) [0..<n] (?new, off + 4) =
      (take (off + 4) ?new @ swapRB (take (4 * n) (drop (off + 4) d)) @ drop (off + 4 + 4 * n) ?new,
       off + 4 + 4 * n)"
    using Suc.prems by (intro Suc.IH len) simp
  have lpx: "length (take off new @ ?px) = off + 4"
    using Suc.prems by simp
  have assoc: "?new = (take off new @ ?px) @ drop (off + 4) new"
    by simp
  have t: "take (off + 4) ?new = take off new @ ?px"
    unfolding assoc by (rule take_app_len [OF lpx])
  have "drop (off + 4 + 4 * n) ?new = drop (4 * n) (drop (off + 4) new)"
    unfolding assoc by (rule drop_app_len [OF lpx])
  also have "\<dots> = drop (off + 4 * Suc n) new"
    by (simp add: ac_simps)
  finally have dr: "drop (off + 4 + 4 * n) ?new = drop (off + 4 * Suc n) new" .
  have sw: "swapRB (take (4 * Suc n) (drop off d)) = ?px @ swapRB (take (4 * n) (drop (off + 4) d))"
    by (subst drop4 [OF bound]) (simp add: take4)
  show ?case
    unfolding fold_const_Suc step ih t dr sw by simp
qed

lemma swapScanline_step:
  assumes "length new = length d" "off + (1 + 4 * w) \<le> length d"
  shows "swapScanline d w (new, off) =
    (take off new @ take 1 (drop off d) @ swapRB (take (4 * w) (drop (off + 1) d))
       @ drop (off + (1 + 4 * w)) new, off + (1 + 4 * w))"
proof -
  let ?new = "new[off := d ! off]"
  have l: "length ?new = length d" using assms by simp
  have "swapScanline d w (new, off) = fold (\<lambda>j. swapPixel d) [0..<w] (?new, off + 1)"
    using assms by (simp add: swapScanline_def store_def load_def)
  also have "\<dots> = (take (off + 1) ?new @ swapRB (take (4 * w) (drop (off + 1) d))
       @ drop (off + 1 + 4 * w) ?new, off + 1 + 4 * w)"
    using assms by (intro swapPixels_fold l) simp
  also have "take (off + 1) ?new = take off new @ take 1 (drop off d)"
    using assms by (simp add: take_Suc_conv_app_nth take_Suc_Cons Cons_nth_drop_Suc [symmetric])
  also have "drop (off + 1 + 4 * w) ?new = drop (off + (1 + 4 * w)) new"
    by (simp add: add.assoc)
  finally show ?thesis by (simp add: add.assoc)
qed

lemma swapScanlines_fold:
  assumes "length new = length d" "off + h * (1 + 4 * w) \<le> length d"
  shows "fold (\<lambda>i. swapScanline d w) [0..<h] (new, off) =
    (take off new @ swapRows w h (drop off d) @ drop (off + h * (1 + 4 * w)) new,
     off + h * (1 + 4 * w))"
  using assms
proof (induction h arbitrary: new off)
  case 0
  then show ?case by simp
next
  case (Suc h)
  let ?s = "1 + 4 * w"
  let ?row = "take 1 (drop off d) @ swapRB (take (4 * w) (drop (off + 1) d))"
  let ?new = "take off new @ ?row @ drop (off + ?s) new"
  have bound: "off + ?s \<le> length d" using Suc.prems by simp
  have lrow: "length (take off new @ ?row) = off + ?s"
    using Suc.prems(1) bound by simp
  have len: "length ?new = length d"
    using Suc.prems(1) bound by simp
  have step: "swapScanline d w (new, off) = (?new, off + ?s)"
    using swapScanline_step [OF Suc.prems(1) bound] by simp
  have assoc: "?new = (take off new @ ?row) @ drop (off + ?s) new"
    by simp
  have ih: "fold (\<lambda>i. swapScanline d w) [0..<h] (?new, off + ?s) =
      (take (off + ?s) ?new @ swapRows w h (drop (off + ?s) d) @ drop (off + ?s + h * ?s) ?new,
       off + ?s + h * ?s)"
    using Suc.prems by (intro Suc.IH len) simp
  have t: "take (off + ?s) ?new = take off new @ ?row"
    unfolding assoc by (rule take_app_len [OF lrow])
  have "drop (off + ?s + h * ?s) ?new = drop (h * ?s) (drop (off + ?s) new)"
    unfolding assoc by (rule drop_app_len [OF lrow])
  also have "\<dots> = drop (off + Suc h * ?s) new"
    by (simp add: algebra_simps)
  finally have dr: "drop (off + ?s + h * ?s) ?new = drop (off + Suc h * ?s) new" .
  have rows: "swapRows w (Suc h) (drop off d) = ?row @ swapRows w h (drop (off + ?s) d)"
    by (simp add: ac_simps)
  have off': "off + ?s + h * ?s = off + Suc h * ?s"
    by simp
  show ?case
    unfolding fold_const_Suc step ih t dr rows by simp
qed

lemma swapScanlines_eq:
  assumes "h * (1 + 4 * w) \<le> length d"
  shows "swapScanlines d w h = swapRows w h d @ replicate (length d - h * (1 + 4 * w)) 0"
proof -
  have "fold (\<lambda>i. swapScanline d w) [0..<h] (replicate (length d) 0, 0) =
    (take 0 (replicate (length d) 0) @ swapRows w h (drop 0 d)
       @ drop (0 + h * (1 + 4 * w)) (replicate (length d) 0), 0 + h * (1 + 4 * w))"
    using assms by (intro swapScanlines_fold) simp_all
  then show ?thesis
    by (simp add: swapScanlines_def)
qed

lemma length_swapRows:
  "h * (1 + 4 * w) \<le> length xs \<Longrightarrow> length (swapRows w h xs) = h * (1 + 4 * w)"
proof (induction h arbitrary: xs)
  case 0
  then show ?case by simp
next
  case (Suc h)
  have "h * (1 + 4 * w) \<le> length (drop (1 + 4 * w) xs)"
    using Suc.prems by simp
  from Suc.IH [OF this] Suc.prems show ?case by simp
qed

lemma swapRows_swapRows:
  "length xs = h * (1 + 4 * w) \<Longrightarrow> swapRows w h (swapRows w h xs) = xs"
proof (induction h arbitrary: xs)
  case 0
  then show ?case by simp
next
  case (Suc h)
  let ?s = "1 + 4 * w"
  let ?R = "take 1 xs @ swapRB (take (4 * w) (drop 1 xs))"
  let ?T = "swapRows w h (drop ?s xs)"
  have lx: "length (drop ?s xs) = h * ?s" using Suc.prems by simp
  have lR: "length ?R = ?s" using Suc.prems by simp
  have l1: "length (take 1 xs) = 1" using Suc.prems by simp
  have eq: "swapRows w (Suc h) xs = ?R @ ?T" by simp
  have a: "take 1 (?R @ ?T) = take 1 xs"
    using l1 by simp
  have "drop 1 (?R @ ?T) = swapRB (take (4 * w) (drop 1 xs)) @ ?T"
    using l1 by simp
  moreover have "length (swapRB (take (4 * w) (drop 1 xs))) = 4 * w"
    using Suc.prems by simp
  ultimately have b: "take (4 * w) (drop 1 (?R @ ?T)) = swapRB (take (4 * w) (drop 1 xs))"
    by simp
  have c: "drop ?s (?R @ ?T) = ?T"
    using drop_app_len [OF lR, of 0 ?T] by simp
  have "swapRows w (Suc h) (?R @ ?T) =
      take 1 xs @ swapRB (swapRB (take (4 * w) (drop 1 xs))) @ swapRows w h ?T"
    unfolding swapRows.simps a b c ..
  also have "\<dots> = take 1 xs @ take (4 * w) (drop 1 xs) @ drop ?s xs"
    using Suc.IH [OF lx] by simp
  also have "\<dots> = xs"
    by (metis append_take_drop_id drop_drop add.commute)
  finally show ?case unfolding eq .
qed

text \<open>
  Claim C3. On a buffer of valid scanline geometry, of length \<open>h * (1 + 4 * w)\<close>, the
  scanline walk of \<^verbatim>\<open>byteSwapIdat\<close> applied twice gives the buffer back, and each
  application keeps the length.
\<close>

theorem byteSwap_self_inverse:
  assumes "length d = h * (1 + 4 * w)"
  shows "swapScanlines (swapScanlines d w h) w h = d \<and>
         length (swapScanlines d w h) = length d"
proof -
  have 1: "swapScanlines d w h = swapRows w h d"
    using assms by (simp add: swapScanlines_eq)
  have 2: "length (swapRows w h d) = h * (1 + 4 * w)"
    using assms by (simp add: length_swapRows)
  have "swapScanlines (swapRows w h d) w h = swapRows w h (swapRows w h d)"
    using 2 by (simp add: swapScanlines_eq)
  with 1 2 assms show ?thesis
    by (simp add: swapRows_swapRows)
qed

theorem byteSwap_self_inverse_witness:
  "length [0, 1, 2, 3, 4, 5, 6, 7, 8 :: byte] = 1 * (1 + 4 * 2) \<and>
   swapScanlines [0, 1, 2, 3, 4, 5, 6, 7, 8] 2 1 = [0, 3, 2, 1, 4, 7, 6, 5, 8] \<and>
   swapScanlines (swapScanlines [0, 1, 2, 3, 4, 5, 6, 7, 8] 2 1) 2 1 = [0, 1, 2, 3, 4, 5, 6, 7, 8] \<and>
   length (swapScanlines [0, 1, 2, 3, 4, 5, 6, 7, 8] 2 1) = 9"
proof -
  have v: "swapScanlines [0, 1, 2, 3, 4, 5, 6, 7, 8] 2 1 = [0, 3, 2, 1, 4, 7, 6, 5, 8]"
    by code_simp
  show ?thesis
    using byteSwap_self_inverse [of "[0, 1, 2, 3, 4, 5, 6, 7, 8]" 1 2] v by simp
qed

lemma swapRows_take:
  "h * (1 + 4 * w) \<le> n \<Longrightarrow> swapRows w h (take n xs) = swapRows w h xs"
proof (induction h arbitrary: n xs)
  case 0
  then show ?case by simp
next
  case (Suc h)
  let ?s = "1 + 4 * w"
  have n: "?s \<le> n" "h * ?s \<le> n - ?s" using Suc.prems by simp_all
  have a: "take 1 (take n xs) = take 1 xs"
    using n by (simp add: min_def)
  have b: "take (4 * w) (drop 1 (take n xs)) = take (4 * w) (drop 1 xs)"
    using n by (simp add: drop_take min_def)
  have c: "drop ?s (take n xs) = take (n - ?s) (drop ?s xs)"
    by (simp add: drop_take)
  show ?case
    unfolding swapRows.simps a b c Suc.IH [OF n(2)] ..
qed

text \<open>
  Claim C10. When the decompressed stream is longer than \<open>h * (1 + 4 * w)\<close> bytes, the
  scanline walk keeps the full length, fills the first \<open>h * (1 + 4 * w)\<close> bytes from the
  same bytes of the input, and leaves every byte after them at the 0 of the fresh
  buffer, whatever the input held there.
\<close>

theorem byteSwap_trailing_zero:
  assumes "h * (1 + 4 * w) \<le> length d"
  shows "length (swapScanlines d w h) = length d \<and>
         take (h * (1 + 4 * w)) (swapScanlines d w h) = swapScanlines (take (h * (1 + 4 * w)) d) w h \<and>
         drop (h * (1 + 4 * w)) (swapScanlines d w h) = replicate (length d - h * (1 + 4 * w)) 0"
proof -
  let ?g = "h * (1 + 4 * w)"
  have eq: "swapScanlines d w h = swapRows w h d @ replicate (length d - ?g) 0"
    using assms by (rule swapScanlines_eq)
  have len: "length (swapRows w h d) = ?g"
    using assms by (rule length_swapRows)
  have "swapScanlines (take ?g d) w h = swapRows w h (take ?g d)"
    using assms by (simp add: swapScanlines_eq)
  then have pre: "swapScanlines (take ?g d) w h = swapRows w h d"
    by (simp add: swapRows_take)
  show ?thesis
    unfolding eq pre using len assms by simp
qed

theorem byteSwap_trailing_zero_witness:
  "1 * (1 + 4 * 1) \<le> length [0, 1, 2, 3, 4, 9, 9 :: byte] \<and>
   swapScanlines [0, 1, 2, 3, 4, 9, 9] 1 1 = [0, 3, 2, 1, 4, 0, 0] \<and>
   length (swapScanlines [0, 1, 2, 3, 4, 9, 9] 1 1) = 7 \<and>
   drop 5 (swapScanlines [0, 1, 2, 3, 4, 9, 9] 1 1) = [0, 0]"
proof -
  have v: "swapScanlines [0, 1, 2, 3, 4, 9, 9] 1 1 = [0, 3, 2, 1, 4, 0, 0]"
    by code_simp
  show ?thesis
    using byteSwap_trailing_zero [of 1 1 "[0, 1, 2, 3, 4, 9, 9]"] v by simp
qed

lemma swapScanlines_twice:
  assumes "length d = h * (1 + 4 * w)"
  shows "swapScanlines (swapScanlines d w h) w h = d"
proof -
  have 1: "swapScanlines d w h = swapRows w h d"
    using assms by (simp add: swapScanlines_eq)
  have 2: "length (swapRows w h d) = h * (1 + 4 * w)"
    using assms by (simp add: length_swapRows)
  have "swapScanlines (swapRows w h d) w h = swapRows w h (swapRows w h d)"
    using 2 by (simp add: swapScanlines_eq)
  with 1 assms show ?thesis
    by (simp add: swapRows_swapRows)
qed

section \<open>Codec selection\<close>

lemma byteSwapIdat_False:
  "byteSwapIdat z idat w h False =
     (case inflate z idat of
        Inl e \<Rightarrow> Inl e
      | Inr decompressed \<Rightarrow> deflateRaw z (swapScanlines decompressed w h))"
  by (simp add: byteSwapIdat_def byteSwapFunctionMap_def)

lemma byteSwapIdat_True:
  "byteSwapIdat z idat w h True =
     (case inflateRaw z idat of
        Inl e \<Rightarrow> Inl e
      | Inr decompressed \<Rightarrow> deflate z (swapScanlines decompressed w h))"
  by (simp add: byteSwapIdat_def byteSwapFunctionMap_def)

text \<open>
  Claim C4. With \<open>isCgbi\<close> true, \<^verbatim>\<open>byteSwapIdat\<close> decompresses the stream with the raw
  inflate and compresses the swapped bytes with the zlib-wrapped deflate; with
  \<open>isCgbi\<close> false it decompresses with the zlib-wrapped inflate and compresses with the
  raw deflate. An error of either call is the result.
\<close>

theorem codec_selection:
  "byteSwapIdat z idat w h True =
     (case inflateRaw z idat of
        Inl e \<Rightarrow> Inl e
      | Inr decompressed \<Rightarrow> deflate z (swapScanlines decompressed w h)) \<and>
   byteSwapIdat z idat w h False =
     (case inflate z idat of
        Inl e \<Rightarrow> Inl e
      | Inr decompressed \<Rightarrow> deflateRaw z (swapScanlines decompressed w h))"
  by (simp add: byteSwapIdat_def byteSwapFunctionMap_def)

section \<open>What \<^verbatim>\<open>convert\<close> computes\<close>

text \<open>
  The loop over the chunks, one round at a time, and then in one step: it re-emits the
  chunks of the scan that are neither IDAT nor iDOT nor IEND, and collects the payloads
  of the IDAT chunks.
\<close>

lemma scanChunks_step:
  assumes "buffer r = data"
  shows "scanChunks data r result idat =
    (if offset r < length data then
       let c = chunkAt data (offset r); r' = r\<lparr>offset := chunkEnd data (offset r)\<rparr>
       in if chunkType c = ''IDAT'' then scanChunks data r' result (idat @ [payload c])
          else if chunkType c = ''iDOT'' then scanChunks data r' result idat
          else if chunkType c = ''IEND'' then (result, idat)
          else scanChunks data r' (result @ [lengthRaw c, typeRaw c, payload c, crcRaw c]) idat
     else (result, idat))"
  using assms
  by (subst scanChunks.simps)
     (simp add: read_eq Let_def chunkAt_def chunkEnd_def chunkType_def add.assoc)

lemma scanChunks_eq:
  assumes "buffer r = data"
  shows "scanChunks data r result idat =
    (result @ concat (map (\<lambda>c. [lengthRaw c, typeRaw c, payload c, crcRaw c])
                 (filter passedThrough (chunksFrom data (offset r)))),
     idat @ map payload (filter isIdat (chunksFrom data (offset r))))"
  using assms
proof (induction "length data - offset r" arbitrary: r result idat rule: less_induct)
  case less
  show ?case
  proof (cases "offset r < length data")
    case False
    then show ?thesis
      by (subst scanChunks_step [OF less.prems], subst (1 2) chunksFrom.simps) simp
  next
    case True
    let ?r' = "r\<lparr>offset := chunkEnd data (offset r)\<rparr>"
    have dec: "length data - offset ?r' < length data - offset r"
      using True by (simp add: chunkEnd_def)
    have buf: "buffer ?r' = data" using less.prems by simp
    note ih = less.hyps [OF dec buf]
    show ?thesis
      using True
      by (subst scanChunks_step [OF less.prems], subst (1 2) chunksFrom.simps)
         (simp add: ih Let_def passedThrough_def isIdat_def)
  qed
qed

lemma concat_fields:
  "concat (concat (map (\<lambda>c. [lengthRaw c, typeRaw c, payload c, crcRaw c]) cs)) =
   concat (map chunkBytes cs)"
  by (induction cs) (simp_all add: chunkBytes_def)

lemma marker_check: "hasCgbiChunk (subarray data 8 16) 0 = hasCgbiChunk data 8"
  by (simp add: hasCgbiChunk_iff subarray_def)

lemma magic_check: "hasPngHeader (subarray data 0 8) = hasPngHeader data"
  by (simp add: hasPngHeader_iff subarray_def)

lemma convert_eq:
  "convert z calculateCRC data =
    (if \<not> hasPngHeader data then Inl (Error ''Data is not a PNG file.'')
     else
       let off = firstChunkOffset data; h = chunkAt data off
       in if chunkType h \<noteq> ''IHDR'' then Inl (Error (''Invalid PNG header: '' @ hexTag (typeRaw h)))
          else
            let cs = chunksFrom data (chunkEnd data off)
            in case byteSwapIdat z (concat (map payload (filter isIdat cs)))
                      (toNumber (subarray (payload h) 0 4)) (toNumber (subarray (payload h) 4 8))
                      (hasCgbiChunk data 8) of
                 Inl e \<Rightarrow> Inl e
               | Inr newIdat \<Rightarrow>
                   Inr (PNG_HEADER @ (if hasCgbiChunk data 8 then [] else CGBI_CHUNK @ CGBI_BGRA) @
                        chunkBytes h @ concat (map chunkBytes (filter passedThrough cs)) @
                        idatFrame calculateCRC newIdat @ IEND_CHUNK))"
proof (cases "hasPngHeader data")
  case False
  then show ?thesis
    by (simp add: convert_def read_eq Let_def magic_check)
next
  case True
  show ?thesis
  proof (cases "hasCgbiChunk data 8")
    case c: True
    show ?thesis
      using True c
      by (simp add: convert_def read_eq Let_def magic_check marker_check firstChunkOffset_def
            scanChunks_eq chunkAt_def chunkEnd_def chunkType_def hexTag_def concatUint8Array_def
            concat_fields chunkBytes_def idatFrame_def IEND_CHUNK_def add.assoc
          split: sum.split)
  next
    case c: False
    show ?thesis
      using True c
      by (simp add: convert_def read_eq Let_def magic_check marker_check firstChunkOffset_def
            scanChunks_eq chunkAt_def chunkEnd_def chunkType_def hexTag_def concatUint8Array_def
            concat_fields chunkBytes_def idatFrame_def IEND_CHUNK_def add.assoc
          split: sum.split)
  qed
qed

lemma chunkBytes_cgbi: "chunkBytes cgbiChunk = CGBI_CHUNK @ CGBI_BGRA"
  by (simp add: chunkBytes_def cgbiChunk_def CGBI_CHUNK_def CGBI_BGRA_def)

lemma chunkBytes_idat: "chunkBytes (idatChunk crc newIdat) = idatFrame crc newIdat"
  by (simp add: chunkBytes_def idatChunk_def idatFrame_def)

lemma chunkBytes_iend: "chunkBytes iendChunk = IEND_CHUNK"
  by (simp add: chunkBytes_def iendChunk_def IEND_CHUNK_def)

lemma wellFramed_cgbi: "wellFramed cgbiChunk"
  by (simp add: wellFramed_def cgbiChunk_def toNumber4)

lemma wellFramed_iend: "wellFramed iendChunk"
  by (simp add: wellFramed_def iendChunk_def toNumber4)

lemma wellFramed_idat: "length newIdat < 4294967296 \<Longrightarrow> wellFramed (idatChunk crc newIdat)"
  by (simp add: wellFramed_def idatChunk_def toNumber_toUint8Array)

lemma chunkType_cgbi: "chunkType cgbiChunk = ''CgBI''"
  by (simp add: chunkType_def cgbiChunk_def fromCharCode_def char_of_eq_iff)

lemma chunkType_idat: "chunkType (idatChunk crc newIdat) = ''IDAT''"
  by (simp add: chunkType_def idatChunk_def fromCharCode_def char_of_eq_iff)

lemma chunkType_iend: "chunkType iendChunk = ''IEND''"
  by (simp add: chunkType_def iendChunk_def fromCharCode_def char_of_eq_iff)

lemma convert_as_chunks:
  "convert z calculateCRC data =
    (if \<not> hasPngHeader data then Inl (Error ''Data is not a PNG file.'')
     else if chunkType (headerChunk data) \<noteq> ''IHDR'' then
       Inl (Error (''Invalid PNG header: '' @ hexTag (typeRaw (headerChunk data))))
     else case rebuiltIdat z data of
         Inl e \<Rightarrow> Inl e
       | Inr newIdat \<Rightarrow>
           Inr (PNG_HEADER @ (if hasCgbiChunk data 8 then [] else CGBI_CHUNK @ CGBI_BGRA) @
                chunkBytes (headerChunk data) @
                concat (map chunkBytes (filter passedThrough (restChunks data))) @
                idatFrame calculateCRC newIdat @ IEND_CHUNK))"
  unfolding headerChunk_def restChunks_def rebuiltIdat_def idatStream_def imageWidth_def
    imageHeight_def
  by (simp add: convert_eq Let_def)

lemma convert_written:
  assumes "convert z calculateCRC data = Inr out"
  shows "hasPngHeader data \<and> chunkType (headerChunk data) = ''IHDR'' \<and>
    (\<exists>newIdat. rebuiltIdat z data = Inr newIdat \<and>
       out = PNG_HEADER @ concat (map chunkBytes (writtenChunks calculateCRC data newIdat)))"
proof -
  have hp: "hasPngHeader data"
    using assms by (auto simp add: convert_as_chunks split: if_splits)
  have ty: "chunkType (headerChunk data) = ''IHDR''"
    using assms by (auto simp add: convert_as_chunks split: if_splits)
  obtain newIdat where n: "rebuiltIdat z data = Inr newIdat"
    using assms hp ty by (cases "rebuiltIdat z data") (simp_all add: convert_as_chunks)
  have "out = PNG_HEADER @ (if hasCgbiChunk data 8 then [] else CGBI_CHUNK @ CGBI_BGRA) @
      chunkBytes (headerChunk data) @
      concat (map chunkBytes (filter passedThrough (restChunks data))) @
      idatFrame calculateCRC newIdat @ IEND_CHUNK"
    using assms hp ty n by (simp add: convert_as_chunks)
  then have "out = PNG_HEADER @ concat (map chunkBytes (writtenChunks calculateCRC data newIdat))"
    by (simp add: writtenChunks_def chunkBytes_cgbi chunkBytes_idat chunkBytes_iend)
  with hp ty n show ?thesis by blast
qed

lemma chunkBytes_chunkAt: "chunkBytes (chunkAt data off) = subarray data off (chunkEnd data off)"
proof -
  define n where "n = toNumber (subarray data off (off + 4))"
  have "subarray data off (off + 4) @ subarray data (off + 4) (off + 8) @
      subarray data (off + 8) (off + 8 + n) @ subarray data (off + 8 + n) (off + 8 + n + 4) =
      subarray data off (off + 8 + n + 4)"
    by (simp add: subarray_adjacent)
  then show ?thesis
    by (simp add: chunkBytes_def chunkAt_def chunkEnd_def Let_def n_def)
qed

text \<open>
  Claim C6. When the first 8 bytes of the input are not the magic header, which includes
  every input shorter than 8 bytes, \<^verbatim>\<open>convert\<close> fails with the error "Data is not a
  PNG file." and returns no bytes.
\<close>

theorem convert_rejects_non_png:
  assumes "take 8 data \<noteq> PNG_HEADER"
  shows "convert z calculateCRC data = Inl (Error ''Data is not a PNG file.'')"
  using assms by (simp add: convert_as_chunks hasPngHeader_iff)


text \<open>
  Claim C1. When \<^verbatim>\<open>convert\<close> succeeds, its result is, in this order: the magic header;
  the 16 bytes of the CgBI marker exactly when the input does not have the marker; the
  bytes of the input's IHDR chunk, as a slice of the input; the bytes of every chunk of
  the scan other than IDAT, iDOT and IEND, in scan order; one IDAT chunk framed around
  the recompressed data (length, tag, data, checksum); and the 12 bytes of the IEND
  chunk.
\<close>

theorem convert_layout:
  assumes "convert z calculateCRC data = Inr out"
  shows "hasPngHeader data \<and> typeRaw (headerChunk data) = [0x49, 0x48, 0x44, 0x52] \<and>
    (\<exists>newIdat. rebuiltIdat z data = Inr newIdat \<and>
       out = PNG_HEADER @
             (if hasCgbiChunk data 8 then [] else CGBI_CHUNK @ CGBI_BGRA) @
             subarray data (firstChunkOffset data) (chunkEnd data (firstChunkOffset data)) @
             concat (map chunkBytes (filter passedThrough (restChunks data))) @
             (toUint8Array (int (length newIdat)) @ [0x49, 0x44, 0x41, 0x54] @ newIdat @
              toUint8Array (calculateCRC ''IDAT'' newIdat)) @
             [0x00, 0x00, 0x00, 0x00, 0x49, 0x45, 0x4e, 0x44, 0xae, 0x42, 0x60, 0x82])"
proof -
  from convert_written [OF assms] obtain newIdat where
    hp: "hasPngHeader data" and ty: "chunkType (headerChunk data) = ''IHDR''"
    and n: "rebuiltIdat z data = Inr newIdat"
    and out: "out = PNG_HEADER @ concat (map chunkBytes (writtenChunks calculateCRC data newIdat))"
    by blast
  have tag: "typeRaw (headerChunk data) = [0x49, 0x48, 0x44, 0x52]"
    using ty by (simp add: chunkType_def fromCharCode_IHDR)
  have "out = PNG_HEADER @
             (if hasCgbiChunk data 8 then [] else CGBI_CHUNK @ CGBI_BGRA) @
             subarray data (firstChunkOffset data) (chunkEnd data (firstChunkOffset data)) @
             concat (map chunkBytes (filter passedThrough (restChunks data))) @
             (toUint8Array (int (length newIdat)) @ [0x49, 0x44, 0x41, 0x54] @ newIdat @
              toUint8Array (calculateCRC ''IDAT'' newIdat)) @
             [0x00, 0x00, 0x00, 0x00, 0x49, 0x45, 0x4e, 0x44, 0xae, 0x42, 0x60, 0x82]"
    unfolding out
    by (simp add: writtenChunks_def chunkBytes_cgbi chunkBytes_idat chunkBytes_iend idatFrame_def
        IEND_CHUNK_def headerChunk_def chunkBytes_chunkAt)
  with hp tag n show ?thesis by blast
qed

section \<open>Scanning a sequence of whole chunks\<close>

lemma length_chunkBytes:
  "wellFramed c \<Longrightarrow> length (chunkBytes c) = 12 + toNumber (lengthRaw c)"
  by (simp add: wellFramed_def chunkBytes_def)

lemma chunkAt_here:
  assumes "wellFramed c"
  shows "chunkAt (chunkBytes c @ rest) 0 = c" "chunkEnd (chunkBytes c @ rest) 0 = length (chunkBytes c)"
proof -
  obtain l t p k where c: "c = \<lparr>lengthRaw = l, typeRaw = t, payload = p, crcRaw = k\<rparr>"
    by (cases c) simp
  have len: "length l = 4" "length t = 4" "length p = toNumber l" "length k = 4"
    using assms by (simp_all add: wellFramed_def c)
  have l: "subarray (chunkBytes c @ rest) 0 (0 + 4) = l"
    by (simp add: subarray_def chunkBytes_def c len)
  have t: "subarray (chunkBytes c @ rest) (0 + 4) (0 + 8) = t"
    by (simp add: subarray_def chunkBytes_def c len)
  have p: "subarray (chunkBytes c @ rest) (0 + 8) (0 + 8 + toNumber l) = p"
    by (simp add: subarray_def chunkBytes_def c len)
  have k: "subarray (chunkBytes c @ rest) (0 + 8 + toNumber l) (0 + 8 + toNumber l + 4) = k"
    by (simp add: subarray_def chunkBytes_def c len)
  show "chunkAt (chunkBytes c @ rest) 0 = c"
    unfolding chunkAt_def Let_def l t p k by (simp add: c)
  show "chunkEnd (chunkBytes c @ rest) 0 = length (chunkBytes c)"
    unfolding chunkEnd_def l by (simp add: chunkBytes_def c len)
qed

lemma chunkAt_shift: "chunkAt (pre @ xs) (length pre + off) = chunkAt xs off"
  by (simp add: chunkAt_def Let_def subarray_append add.assoc)

lemma chunkEnd_shift: "chunkEnd (pre @ xs) (length pre + off) = length pre + chunkEnd xs off"
  using subarray_append [of pre xs off "off + 4"]
  by (simp add: chunkEnd_def add.assoc)

lemma chunksFrom_shift:
  "chunksFrom (pre @ xs) (length pre + off) = chunksFrom xs off"
proof (induction "length xs - off" arbitrary: off rule: less_induct)
  case less
  show ?case
  proof (cases "off < length xs")
    case False
    then show ?thesis
      by (subst (1 2) chunksFrom.simps) simp
  next
    case True
    have dec: "length xs - chunkEnd xs off < length xs - off"
      using True by (simp add: chunkEnd_def)
    have ih: "chunksFrom (pre @ xs) (length pre + chunkEnd xs off) = chunksFrom xs (chunkEnd xs off)"
      by (rule less.hyps [OF dec])
    show ?thesis
      using True
      by (subst (1 2) chunksFrom.simps) (simp add: chunkAt_shift chunkEnd_shift ih)
  qed
qed

lemma chunksFrom_Cons:
  assumes "wellFramed c"
  shows "chunksFrom (chunkBytes c @ rest) 0 =
    c # (if chunkType c = ''IEND'' then [] else chunksFrom rest 0)"
proof -
  have pos: "0 < length (chunkBytes c @ rest)"
    using assms by (simp add: length_chunkBytes)
  have "chunksFrom (chunkBytes c @ rest) (length (chunkBytes c) + 0) = chunksFrom rest 0"
    by (rule chunksFrom_shift)
  then have sh: "chunksFrom (chunkBytes c @ rest) (length (chunkBytes c)) = chunksFrom rest 0"
    by simp
  show ?thesis
    using pos by (subst chunksFrom.simps) (simp add: chunkAt_here [OF assms] sh)
qed

lemma chunksFrom_concat:
  assumes "list_all wellFramed cs" "list_all (\<lambda>c. chunkType c \<noteq> ''IEND'') cs"
  shows "chunksFrom (concat (map chunkBytes cs) @ rest) 0 = cs @ chunksFrom rest 0"
  using assms
proof (induction cs)
  case Nil
  then show ?case by simp
next
  case (Cons c cs)
  then have wf: "wellFramed c" and ne: "chunkType c \<noteq> ''IEND''" by simp_all
  have "chunksFrom (chunkBytes c @ concat (map chunkBytes cs) @ rest) 0 =
      c # chunksFrom (concat (map chunkBytes cs) @ rest) 0"
    using chunksFrom_Cons [OF wf] ne by simp
  with Cons show ?case by simp
qed

lemma no_marker_before_IHDR:
  assumes "wellFramed h" "chunkType h = ''IHDR''"
  shows "\<not> hasCgbiChunk (PNG_HEADER @ chunkBytes h @ rest) 8"
proof
  assume "hasCgbiChunk (PNG_HEADER @ chunkBytes h @ rest) 8"
  then have "take 8 (chunkBytes h @ rest) = CGBI_CHUNK"
    by (simp add: hasCgbiChunk_iff length_PNG_HEADER)
  then have "lengthRaw h @ typeRaw h = CGBI_CHUNK"
    using assms(1) by (simp add: chunkBytes_def wellFramed_def)
  then have "drop 4 (lengthRaw h @ typeRaw h) = drop 4 CGBI_CHUNK"
    by simp
  then have "typeRaw h = [0x43, 0x67, 0x42, 0x49]"
    using assms(1) by (simp add: wellFramed_def CGBI_CHUNK_def)
  then have "chunkType h = ''CgBI''"
    by (simp add: chunkType_def fromCharCode_def char_of_eq_iff)
  with assms(2) show False by simp
qed

lemma framed_parse:
  assumes wf: "wellFramed h" "list_all wellFramed cs" "wellFramed e"
    and ty: "chunkType h = ''IHDR''" "list_all (\<lambda>c. chunkType c \<noteq> ''IEND'') cs" "chunkType e = ''IEND''"
    and m: "marker = [] \<or> marker = CGBI_CHUNK @ CGBI_BGRA"
    and data: "data = PNG_HEADER @ marker @ chunkBytes h @ concat (map chunkBytes cs) @ chunkBytes e @ trailing"
  shows "hasPngHeader data" "hasCgbiChunk data 8 \<longleftrightarrow> marker \<noteq> []"
    "headerChunk data = h" "restChunks data = cs @ [e]"
proof -
  let ?rest = "concat (map chunkBytes cs) @ chunkBytes e @ trailing"
  show hp: "hasPngHeader data"
    by (simp add: hasPngHeader_iff data length_PNG_HEADER)
  show hc: "hasCgbiChunk data 8 \<longleftrightarrow> marker \<noteq> []"
  proof (cases "marker = []")
    case True
    then show ?thesis
      using no_marker_before_IHDR [OF wf(1) ty(1), of ?rest] by (simp add: data)
  next
    case False
    with m have "marker = CGBI_CHUNK @ CGBI_BGRA" by simp
    then show ?thesis
      by (simp add: data hasCgbiChunk_iff length_PNG_HEADER CGBI_CHUNK_def CGBI_BGRA_def)
  qed
  have off: "firstChunkOffset data = length (PNG_HEADER @ marker)"
  proof (cases "marker = []")
    case True
    with hc show ?thesis
      by (simp add: firstChunkOffset_def length_PNG_HEADER)
  next
    case False
    with m have "marker = CGBI_CHUNK @ CGBI_BGRA" by simp
    with hc False show ?thesis
      by (simp add: firstChunkOffset_def length_PNG_HEADER CGBI_CHUNK_def CGBI_BGRA_def)
  qed
  have split: "data = (PNG_HEADER @ marker) @ chunkBytes h @ ?rest"
    by (simp add: data)
  have at: "chunkAt data (length (PNG_HEADER @ marker) + 0) = chunkAt (chunkBytes h @ ?rest) 0"
    unfolding split by (rule chunkAt_shift)
  show hd: "headerChunk data = h"
    using at chunkAt_here(1) [OF wf(1), of ?rest] by (simp add: headerChunk_def off)
  have "chunkEnd data (length (PNG_HEADER @ marker) + 0) =
      length (PNG_HEADER @ marker) + chunkEnd (chunkBytes h @ ?rest) 0"
    unfolding split by (rule chunkEnd_shift)
  then have e: "chunkEnd data (firstChunkOffset data) = length ((PNG_HEADER @ marker) @ chunkBytes h) + 0"
    using chunkAt_here(2) [OF wf(1), of ?rest] by (simp add: off)
  have split': "data = ((PNG_HEADER @ marker) @ chunkBytes h) @ ?rest"
    by (simp add: data)
  have "restChunks data = chunksFrom ?rest 0"
    unfolding restChunks_def e by (subst split') (rule chunksFrom_shift)
  also have "\<dots> = cs @ chunksFrom (chunkBytes e @ trailing) 0"
    by (rule chunksFrom_concat [OF wf(2) ty(2)])
  also have "chunksFrom (chunkBytes e @ trailing) 0 = [e]"
    using chunksFrom_Cons [OF wf(3), of trailing] ty(3) by simp
  finally show "restChunks data = cs @ [e]" .
qed

lemma framed_chunks:
  assumes wf: "wellFramed h" "list_all wellFramed cs" "wellFramed e"
    and ty: "chunkType h = ''IHDR''" "list_all (\<lambda>c. chunkType c \<noteq> ''IEND'') cs" "chunkType e = ''IEND''"
    and m: "marker = [] \<or> marker = CGBI_CHUNK @ CGBI_BGRA"
    and data: "data = PNG_HEADER @ marker @ chunkBytes h @ concat (map chunkBytes cs) @ chunkBytes e @ trailing"
  shows "chunksFrom data 8 = (if marker = [] then [] else [cgbiChunk]) @ h # cs @ [e]"
proof -
  let ?pre = "(if marker = [] then [] else [cgbiChunk]) @ h # cs"
  have mk: "marker = concat (map chunkBytes (if marker = [] then [] else [cgbiChunk]))"
    using m by (auto simp add: chunkBytes_cgbi)
  have split: "data = PNG_HEADER @ concat (map chunkBytes ?pre) @ chunkBytes e @ trailing"
    by (subst data, subst mk) simp
  have wfp: "list_all wellFramed ?pre"
    using wf by (simp add: wellFramed_cgbi)
  have tyn: "list_all (\<lambda>c. chunkType c \<noteq> ''IEND'') ?pre"
    using ty by (simp add: chunkType_cgbi)
  have "chunksFrom data (length PNG_HEADER + 0) =
      chunksFrom (concat (map chunkBytes ?pre) @ chunkBytes e @ trailing) 0"
    unfolding split by (rule chunksFrom_shift)
  also have "\<dots> = ?pre @ chunksFrom (chunkBytes e @ trailing) 0"
    by (rule chunksFrom_concat [OF wfp tyn])
  also have "chunksFrom (chunkBytes e @ trailing) 0 = [e]"
    using chunksFrom_Cons [OF wf(3), of trailing] ty(3) by simp
  finally show ?thesis
    by (simp add: length_PNG_HEADER)
qed

lemma passedThrough_not_IEND: "passedThrough c \<Longrightarrow> chunkType c \<noteq> ''IEND''"
  by (simp add: passedThrough_def)

lemma length_newIdat_le:
  assumes "out = PNG_HEADER @ concat (map chunkBytes (writtenChunks calculateCRC data newIdat))"
  shows "length newIdat \<le> length out"
  unfolding assms by (simp add: writtenChunks_def chunkBytes_idat idatFrame_def)

lemma output_parse:
  assumes conv: "convert z calculateCRC data = Inr out"
    and n: "rebuiltIdat z data = Inr newIdat"
    and c: "complete data"
    and len: "length newIdat < 4294967296"
  shows "hasPngHeader out" "hasCgbiChunk out 8 \<longleftrightarrow> \<not> hasCgbiChunk data 8"
    "headerChunk out = headerChunk data"
    "restChunks out = filter passedThrough (restChunks data) @ [idatChunk calculateCRC newIdat, iendChunk]"
    "chunksFrom out 8 = writtenChunks calculateCRC data newIdat"
proof -
  let ?marker = "if hasCgbiChunk data 8 then [] else CGBI_CHUNK @ CGBI_BGRA"
  let ?cs = "filter passedThrough (restChunks data) @ [idatChunk calculateCRC newIdat]"
  from convert_written [OF conv] n
  have ty: "chunkType (headerChunk data) = ''IHDR''"
    and out': "out = PNG_HEADER @ concat (map chunkBytes (writtenChunks calculateCRC data newIdat))"
    by auto
  have out: "out = PNG_HEADER @ ?marker @ chunkBytes (headerChunk data) @
      concat (map chunkBytes ?cs) @ chunkBytes iendChunk @ []"
    unfolding out' by (simp add: writtenChunks_def chunkBytes_cgbi)
  have wfi: "wellFramed (idatChunk calculateCRC newIdat)"
    using len by (rule wellFramed_idat)
  have wfh: "wellFramed (headerChunk data)"
    using c by (simp add: complete_def)
  have wfc: "list_all wellFramed ?cs"
    using c wfi by (simp add: complete_def list_all_iff)
  have tyc: "list_all (\<lambda>c. chunkType c \<noteq> ''IEND'') ?cs"
    by (simp add: list_all_iff passedThrough_not_IEND chunkType_idat)
  have m: "?marker = [] \<or> ?marker = CGBI_CHUNK @ CGBI_BGRA"
    by simp
  have ne: "CGBI_CHUNK @ CGBI_BGRA \<noteq> []"
    by (simp add: CGBI_CHUNK_def)
  note fp = framed_parse [OF wfh wfc wellFramed_iend ty tyc chunkType_iend m out]
  show "hasPngHeader out" by (rule fp(1))
  show "hasCgbiChunk out 8 \<longleftrightarrow> \<not> hasCgbiChunk data 8"
    using fp(2) ne by (simp split: if_splits)
  show "headerChunk out = headerChunk data" by (rule fp(3))
  show "restChunks out = filter passedThrough (restChunks data) @ [idatChunk calculateCRC newIdat, iendChunk]"
    using fp(4) by simp
  show "chunksFrom out 8 = writtenChunks calculateCRC data newIdat"
    using framed_chunks [OF wfh wfc wellFramed_iend ty tyc chunkType_iend m out] ne
    by (simp add: writtenChunks_def split: if_splits)
qed

lemma passThroughType_passedThrough: "passThroughType c \<Longrightarrow> passedThrough c"
  by (simp add: passThroughType_def passedThrough_def)

lemma filter_passThroughType:
  "filter passThroughType (filter passedThrough cs) = filter passThroughType cs"
  by (induction cs) (auto simp add: passThroughType_passedThrough)

text \<open>
  Claim C8. When \<^verbatim>\<open>convert\<close> succeeds, the chunks it writes between the IHDR chunk and
  the new IDAT chunk are chunks of the input, byte for byte, and those of them whose
  type is not IHDR, IDAT, iDOT or IEND are all the chunks of that kind that the scan of
  the input decodes, in the same order. When no chunk of the input is cut off and the
  output is shorter than \<open>2 ^ 32\<close> bytes, scanning the output gives back the same list
  of such chunks as scanning the input.
\<close>

theorem passthrough_fidelity:
  assumes "convert z calculateCRC data = Inr out"
  shows "\<exists>newIdat. rebuiltIdat z data = Inr newIdat \<and>
    out = PNG_HEADER @ (if hasCgbiChunk data 8 then [] else CGBI_CHUNK @ CGBI_BGRA) @
          chunkBytes (headerChunk data) @
          concat (map chunkBytes (filter passedThrough (restChunks data))) @
          idatFrame calculateCRC newIdat @ IEND_CHUNK \<and>
    filter passThroughType (filter passedThrough (restChunks data)) =
      filter passThroughType (restChunks data) \<and>
    (complete data \<and> length out < 4294967296 \<longrightarrow>
       filter passThroughType (restChunks out) = filter passThroughType (restChunks data))"
proof -
  from convert_written [OF assms] obtain newIdat where
    n: "rebuiltIdat z data = Inr newIdat"
    and out: "out = PNG_HEADER @ concat (map chunkBytes (writtenChunks calculateCRC data newIdat))"
    by blast
  let ?kept = "filter passedThrough (restChunks data)"
  have a: "out = PNG_HEADER @ (if hasCgbiChunk data 8 then [] else CGBI_CHUNK @ CGBI_BGRA) @
          chunkBytes (headerChunk data) @ concat (map chunkBytes ?kept) @
          idatFrame calculateCRC newIdat @ IEND_CHUNK"
    unfolding out
    by (simp add: writtenChunks_def chunkBytes_cgbi chunkBytes_idat chunkBytes_iend)
  have b: "filter passThroughType ?kept = filter passThroughType (restChunks data)"
    by (rule filter_passThroughType)
  have c: "filter passThroughType (restChunks out) = filter passThroughType (restChunks data)"
    if "complete data" "length out < 4294967296"
  proof -
    have "length newIdat < 4294967296"
      using length_newIdat_le [OF out] that(2) by simp
    with assms n that(1)
    have "restChunks out = ?kept @ [idatChunk calculateCRC newIdat, iendChunk]"
      by (rule output_parse(4))
    moreover have "filter passThroughType [idatChunk calculateCRC newIdat, iendChunk] = []"
      by (simp add: passThroughType_def chunkType_idat chunkType_iend)
    ultimately show ?thesis
      by (simp only: filter_append filter_passThroughType append_Nil2)
  qed
  from n a b c show ?thesis by blast
qed


section \<open>Converting twice\<close>

lemma passedThrough_not_isIdat: "passedThrough c \<Longrightarrow> \<not> isIdat c"
  by (simp add: passedThrough_def isIdat_def)

lemma filter_isIdat_passedThrough: "filter isIdat (filter passedThrough cs) = []"
  by (induction cs) (auto simp add: passedThrough_not_isIdat)

lemma filter_passedThrough_idem: "filter passedThrough (filter passedThrough cs) = filter passedThrough cs"
  by (induction cs) auto

lemma roundtrip_core:
  fixes calculateCRC :: "string \<Rightarrow> Uint8Array \<Rightarrow> int"
  assumes codec: "losslessCodec z"
    and std: "isStandardPng P"
    and ihdr: "chunkType (headerChunk P) = ''IHDR''"
    and comp: "complete P"
    and pix: "inflate z (idatStream P) = Inr pixels"
    and geo: "length pixels = imageHeight P * (1 + 4 * imageWidth P)"
    and mid: "deflateRaw z (swapScanlines pixels (imageWidth P) (imageHeight P)) = Inr mid"
    and small: "length mid < 4294967296"
    and fin: "deflate z pixels = Inr fin"
  defines "kept \<equiv> concat (map chunkBytes (filter passedThrough (restChunks P)))"
  defines "Q \<equiv> PNG_HEADER @ CGBI_CHUNK @ CGBI_BGRA @ chunkBytes (headerChunk P) @ kept @
                idatFrame calculateCRC mid @ IEND_CHUNK"
  defines "R \<equiv> PNG_HEADER @ chunkBytes (headerChunk P) @ kept @
                idatFrame calculateCRC fin @ IEND_CHUNK"
  shows "convert z calculateCRC P = Inr Q" "convert z calculateCRC Q = Inr R" "inflate z fin = Inr pixels"
proof -
  have hp: "hasPngHeader P" and nc: "\<not> hasCgbiChunk P 8"
    using std by (simp_all add: isStandardPng_def)
  have n1: "rebuiltIdat z P = Inr mid"
    using nc pix mid by (simp add: rebuiltIdat_def byteSwapIdat_False)
  show c1: "convert z calculateCRC P = Inr Q"
    using hp ihdr n1 nc by (simp add: convert_as_chunks Q_def kept_def)
  note parsed = output_parse [OF c1 n1 comp small]
  have hq: "hasPngHeader Q" by (rule parsed(1))
  have cq: "hasCgbiChunk Q 8" using parsed(2) nc by simp
  have tq: "chunkType (headerChunk Q) = ''IHDR''"
    using parsed(3) ihdr by simp
  have i1: "isIdat (idatChunk calculateCRC mid)" "\<not> passedThrough (idatChunk calculateCRC mid)"
    by (simp_all add: isIdat_def passedThrough_def chunkType_idat)
  have i2: "\<not> isIdat iendChunk" "\<not> passedThrough iendChunk"
    by (simp_all add: isIdat_def passedThrough_def chunkType_iend)
  have "filter isIdat (restChunks Q) =
      filter isIdat (filter passedThrough (restChunks P)) @
      filter isIdat [idatChunk calculateCRC mid, iendChunk]"
    unfolding parsed(4) by (rule filter_append)
  also have "\<dots> = [idatChunk calculateCRC mid]"
    unfolding filter_isIdat_passedThrough using i1 i2 by simp
  finally have sq: "idatStream Q = mid"
    by (simp add: idatStream_def idatChunk_def)
  have wq: "imageWidth Q = imageWidth P" "imageHeight Q = imageHeight P"
    by (simp_all add: imageWidth_def imageHeight_def parsed(3))
  have bk: "inflateRaw z mid = Inr (swapScanlines pixels (imageWidth P) (imageHeight P))"
    using codec mid by (simp add: losslessCodec_def)
  have n2: "rebuiltIdat z Q = Inr fin"
    using bk fin cq
    by (simp add: rebuiltIdat_def sq wq byteSwapIdat_True swapScanlines_twice [OF geo])
  have "filter passedThrough (restChunks Q) =
      filter passedThrough (filter passedThrough (restChunks P)) @
      filter passedThrough [idatChunk calculateCRC mid, iendChunk]"
    unfolding parsed(4) by (rule filter_append)
  also have "\<dots> = filter passedThrough (restChunks P)"
    unfolding filter_passedThrough_idem using i1 i2 by simp
  finally have kq: "filter passedThrough (restChunks Q) = filter passedThrough (restChunks P)" .
  show "convert z calculateCRC Q = Inr R"
    using hq tq n2 cq by (simp add: convert_as_chunks kq parsed(3) R_def kept_def)
  show "inflate z fin = Inr pixels"
    using codec fin by (simp add: losslessCodec_def)
qed

text \<open>
  Claim C2. (as amended) Let \<open>P\<close> be a standard PNG whose chunks are all whole, whose
  IDAT stream inflates to \<open>height * (1 + 4 * width)\<close> bytes (32 bits per pixel, no
  interlacing), with a codec that inflates what it deflated, and let the raw-deflated
  stream be shorter than \<open>2 ^ 32\<close> bytes. Then \<^verbatim>\<open>convert\<close> succeeds on \<open>P\<close> and on its
  result, and the second result is the magic header, the IHDR chunk of \<open>P\<close>, the chunks
  of \<open>P\<close> other than IDAT, iDOT and IEND, byte for byte and in their order, one IDAT
  chunk whose payload inflates to the decompressed image data of \<open>P\<close>, and the IEND
  chunk. The iDOT chunks of \<open>P\<close> are not in it.
\<close>

theorem double_conversion_restores_image:
  assumes "losslessCodec z"
    and "isStandardPng P"
    and "chunkType (headerChunk P) = ''IHDR''"
    and "complete P"
    and "inflate z (idatStream P) = Inr pixels"
    and "length pixels = imageHeight P * (1 + 4 * imageWidth P)"
    and "deflateRaw z (swapScanlines pixels (imageWidth P) (imageHeight P)) = Inr mid"
    and "length mid < 4294967296"
    and "deflate z pixels = Inr fin"
  shows "convert z calculateCRC P =
           Inr (PNG_HEADER @ CGBI_CHUNK @ CGBI_BGRA @ chunkBytes (headerChunk P) @
                concat (map chunkBytes (filter passedThrough (restChunks P))) @
                idatFrame calculateCRC mid @ IEND_CHUNK) \<and>
         convert z calculateCRC
           (PNG_HEADER @ CGBI_CHUNK @ CGBI_BGRA @ chunkBytes (headerChunk P) @
            concat (map chunkBytes (filter passedThrough (restChunks P))) @
            idatFrame calculateCRC mid @ IEND_CHUNK) =
           Inr (PNG_HEADER @ chunkBytes (headerChunk P) @
                concat (map chunkBytes (filter passedThrough (restChunks P))) @
                idatFrame calculateCRC fin @ IEND_CHUNK) \<and>
         inflate z fin = Inr pixels"
  using roundtrip_core [OF assms] by simp

section \<open>The examples\<close>

lemma storedRaw_lossless:
  assumes "storedDeflateRaw x = Inr y"
  shows "storedInflateRaw y = Inr x"
proof -
  let ?n = "length x"
  have n: "?n < 65536"
    using assms by (simp add: storedDeflateRaw_def split: if_splits)
  have y: "y = [0x01, of_nat (?n mod 256), of_nat (?n div 256),
              NOT (of_nat (?n mod 256)), NOT (of_nat (?n div 256))] @ x"
    using assms n by (simp add: storedDeflateRaw_def)
  have "?n div 256 < 256" using n by simp
  then have "unat (of_nat (?n mod 256) :: byte) + 256 * unat (of_nat (?n div 256) :: byte) = ?n"
    by (simp add: unat_of_nat)
  then show ?thesis
    unfolding y by simp
qed

lemma stored_lossless:
  assumes "storedDeflate x = Inr y"
  shows "storedInflate y = Inr x"
proof -
  obtain r where r: "storedDeflateRaw x = Inr r"
    and y: "y = [0x78, 0x01] @ r @ toUint8Array (int (adler32 x))"
    using assms by (auto simp add: storedDeflate_def split: sum.splits)
  have 1: "take 2 y = [0x78, 0x01]" "6 \<le> length y"
    by (simp_all add: y)
  have 2: "take (length y - 6) (drop 2 y) = r"
    by (simp add: y)
  have 3: "drop (length y - 4) y = toUint8Array (int (adler32 x))"
    by (simp add: y)
  show ?thesis
    unfolding storedInflate_def 2 3 using 1 storedRaw_lossless [OF r] by simp
qed

lemma example_lossless: "losslessCodec exampleZlib"
  by (simp add: losslessCodec_def exampleZlib_def stored_lossless storedRaw_lossless)

lemma example_swap:
  "swapScanlines examplePixels 2 1 = [0x00, 0x30, 0x20, 0x10, 0xff, 0x60, 0x50, 0x40, 0x80]"
  unfolding examplePixels_def by code_simp

lemma example_deflateRaw:
  "storedDeflateRaw [0x00, 0x30, 0x20, 0x10, 0xff, 0x60, 0x50, 0x40, 0x80] =
     Inr [0x01, 0x09, 0x00, 0xf6, 0xff, 0x00, 0x30, 0x20, 0x10, 0xff, 0x60, 0x50, 0x40, 0x80]"
  by (simp add: storedDeflateRaw_def)

lemma example_adler: "adler32 examplePixels = 179569360"
  by (simp add: adler32_def examplePixels_def)

lemma example_deflate:
  "storedDeflate examplePixels =
     Inr [0x78, 0x01, 0x01, 0x09, 0x00, 0xf6, 0xff, 0x00, 0x10, 0x20, 0x30, 0xff, 0x40, 0x50,
          0x60, 0x80, 0x0a, 0xb4, 0x02, 0xd0]"
  unfolding storedDeflate_def example_adler
  by (simp add: storedDeflateRaw_def examplePixels_def toUint8Array_eq)

lemma example_types:
  "chunkType exampleIHDR = ''IHDR''" "chunkType exampleGAMA = ''gAMA''"
  "chunkType exampleIDOT = ''iDOT''" "chunkType exampleIDAT1 = ''IDAT''"
  "chunkType exampleIDAT2 = ''IDAT''" "chunkType exampleTEXT = ''tEXt''"
  by (simp_all add: chunkType_def fromCharCode_def char_of_eq_iff exampleIHDR_def exampleGAMA_def
      exampleIDOT_def exampleIDAT1_def exampleIDAT2_def exampleTEXT_def)

lemma example_wellFramed:
  "wellFramed exampleIHDR" "list_all wellFramed exampleChunks"
  by (simp_all add: wellFramed_def toNumber4 exampleChunks_def exampleIHDR_def exampleGAMA_def
      exampleIDOT_def exampleIDAT1_def exampleIDAT2_def exampleTEXT_def)

lemma example_no_IEND: "list_all (\<lambda>c. chunkType c \<noteq> ''IEND'') exampleChunks"
  by (simp add: exampleChunks_def example_types)

lemma examplePng_framed:
  "examplePng = PNG_HEADER @ [] @ chunkBytes exampleIHDR @ concat (map chunkBytes exampleChunks) @
     chunkBytes iendChunk @ []"
  by (simp add: examplePng_def PNG_HEADER_def chunkBytes_def iendChunk_def exampleChunks_def
      exampleIHDR_def exampleGAMA_def exampleIDOT_def exampleIDAT1_def exampleIDAT2_def
      exampleTEXT_def)

lemmas example_parse =
  framed_parse [OF example_wellFramed wellFramed_iend example_types(1) example_no_IEND
    chunkType_iend disjI1 [OF refl] examplePng_framed]

lemma example_chunks: "chunksFrom examplePng 8 = exampleIHDR # exampleChunks @ [iendChunk]"
  using framed_chunks [OF example_wellFramed wellFramed_iend example_types(1) example_no_IEND
    chunkType_iend disjI1 [OF refl] examplePng_framed]
  by simp

lemma example_standard: "isStandardPng examplePng"
  using example_parse(1,2) by (simp add: isStandardPng_def)

lemma example_complete: "complete examplePng"
  using example_wellFramed by (simp add: complete_def example_parse wellFramed_iend)

lemma example_kept:
  "filter passedThrough (restChunks examplePng) = [exampleGAMA, exampleTEXT]"
  by (simp add: example_parse exampleChunks_def passedThrough_def example_types chunkType_iend)

lemma example_idatStream:
  "idatStream examplePng =
     [0x78, 0x01, 0x01, 0x09, 0x00, 0xf6, 0xff, 0x00, 0x10, 0x20, 0x30, 0xff, 0x40, 0x50,
      0x60, 0x80, 0x0a, 0xb4, 0x02, 0xd0]"
proof -
  have "filter isIdat (restChunks examplePng) = [exampleIDAT1, exampleIDAT2]"
    by (simp add: example_parse exampleChunks_def isIdat_def example_types chunkType_iend)
  then show ?thesis
    by (simp add: idatStream_def exampleIDAT1_def exampleIDAT2_def)
qed

lemma example_size: "imageWidth examplePng = 2" "imageHeight examplePng = 1"
  by (simp_all add: imageWidth_def imageHeight_def example_parse exampleIHDR_def subarray_def
      toNumber4)

lemma example_inflate: "inflate exampleZlib (idatStream examplePng) = Inr examplePixels"
  unfolding example_idatStream
  using stored_lossless [OF example_deflate] by (simp add: exampleZlib_def)

lemma exampleCgbi_framed:
  "exampleCgbi = PNG_HEADER @ CGBI_CHUNK @ CGBI_BGRA @ chunkBytes (headerChunk examplePng) @
     concat (map chunkBytes (filter passedThrough (restChunks examplePng))) @
     idatFrame exampleCRC
       [0x01, 0x09, 0x00, 0xf6, 0xff, 0x00, 0x30, 0x20, 0x10, 0xff, 0x60, 0x50, 0x40, 0x80] @
     IEND_CHUNK"
  unfolding example_kept example_parse(3)
  by (simp add: exampleCgbi_def PNG_HEADER_def CGBI_CHUNK_def CGBI_BGRA_def chunkBytes_def
      IEND_CHUNK_def exampleIHDR_def exampleGAMA_def exampleTEXT_def idatFrame_def
      exampleCRC_def toUint8Array_eq)

lemma exampleBack_framed:
  "exampleBack = PNG_HEADER @ chunkBytes (headerChunk examplePng) @
     concat (map chunkBytes (filter passedThrough (restChunks examplePng))) @
     idatFrame exampleCRC
       [0x78, 0x01, 0x01, 0x09, 0x00, 0xf6, 0xff, 0x00, 0x10, 0x20, 0x30, 0xff, 0x40, 0x50,
        0x60, 0x80, 0x0a, 0xb4, 0x02, 0xd0] @
     IEND_CHUNK"
  unfolding example_kept example_parse(3)
  by (simp add: exampleBack_def PNG_HEADER_def chunkBytes_def
      IEND_CHUNK_def exampleIHDR_def exampleGAMA_def exampleTEXT_def idatFrame_def
      exampleCRC_def toUint8Array_eq)

lemma example_mid:
  "deflateRaw exampleZlib (swapScanlines examplePixels (imageWidth examplePng) (imageHeight examplePng)) =
     Inr [0x01, 0x09, 0x00, 0xf6, 0xff, 0x00, 0x30, 0x20, 0x10, 0xff, 0x60, 0x50, 0x40, 0x80]"
  unfolding example_size example_swap by (simp add: exampleZlib_def example_deflateRaw)

lemma example_fin:
  "deflate exampleZlib examplePixels =
     Inr [0x78, 0x01, 0x01, 0x09, 0x00, 0xf6, 0xff, 0x00, 0x10, 0x20, 0x30, 0xff, 0x40, 0x50,
          0x60, 0x80, 0x0a, 0xb4, 0x02, 0xd0]"
  by (simp add: exampleZlib_def example_deflate)

lemma example_geometry:
  "length examplePixels = imageHeight examplePng * (1 + 4 * imageWidth examplePng)"
  by (simp add: example_size examplePixels_def)

lemma example_small:
  "length [0x01, 0x09, 0x00, 0xf6, 0xff, 0x00, 0x30, 0x20, 0x10, 0xff, 0x60, 0x50, 0x40, 0x80 :: byte]
     < 4294967296"
  by simp

lemma example_ihdr: "chunkType (headerChunk examplePng) = ''IHDR''"
  by (simp add: example_parse example_types)

lemmas example_roundtrip =
  roundtrip_core [OF example_lossless example_standard example_ihdr
    example_complete example_inflate example_geometry example_mid example_small example_fin]

lemma example_forward: "convert exampleZlib exampleCRC examplePng = Inr exampleCgbi"
  unfolding exampleCgbi_framed by (rule example_roundtrip(1))

lemma example_backward: "convert exampleZlib exampleCRC exampleCgbi = Inr exampleBack"
  unfolding exampleCgbi_framed exampleBack_framed by (rule example_roundtrip(2))

lemma example_length: "length exampleCgbi < 4294967296"
  by (simp add: exampleCgbi_def)

lemma exampleBack_chunks:
  "chunksFrom exampleBack 8 =
     [exampleIHDR, exampleGAMA, exampleTEXT,
      idatChunk exampleCRC
        [0x78, 0x01, 0x01, 0x09, 0x00, 0xf6, 0xff, 0x00, 0x10, 0x20, 0x30, 0xff, 0x40, 0x50,
         0x60, 0x80, 0x0a, 0xb4, 0x02, 0xd0],
      iendChunk]"
proof -
  let ?fin = "[0x78, 0x01, 0x01, 0x09, 0x00, 0xf6, 0xff, 0x00, 0x10, 0x20, 0x30, 0xff, 0x40, 0x50,
         0x60, 0x80, 0x0a, 0xb4, 0x02, 0xd0] :: Uint8Array"
  let ?cs = "[exampleGAMA, exampleTEXT, idatChunk exampleCRC ?fin]"
  have wf: "list_all wellFramed ?cs"
    using example_wellFramed(2) by (simp add: exampleChunks_def wellFramed_idat)
  have ne: "list_all (\<lambda>c. chunkType c \<noteq> ''IEND'') ?cs"
    by (simp add: example_types chunkType_idat)
  have fr: "exampleBack = PNG_HEADER @ [] @ chunkBytes exampleIHDR @ concat (map chunkBytes ?cs) @
      chunkBytes iendChunk @ []"
    unfolding exampleBack_framed example_kept example_parse(3)
    by (simp add: chunkBytes_idat chunkBytes_iend)
  show ?thesis
    using framed_chunks [OF example_wellFramed(1) wf wellFramed_iend example_types(1) ne
      chunkType_iend disjI1 [OF refl] fr]
    by simp
qed

text \<open>
  The round trip claim as it was stated, with all chunk content restored, fails on
  \<open>examplePng\<close>, a standard 32-bit PNG: its iDOT chunk is gone after two conversions.
\<close>

theorem double_conversion_drops_iDOT_counterexample:
  "isStandardPng examplePng \<and>
   inflate exampleZlib (idatStream examplePng) = Inr examplePixels \<and>
   length examplePixels = imageHeight examplePng * (1 + 4 * imageWidth examplePng) \<and>
   convert exampleZlib exampleCRC examplePng = Inr exampleCgbi \<and>
   convert exampleZlib exampleCRC exampleCgbi = Inr exampleBack \<and>
   map chunkType (chunksFrom examplePng 8) =
     [''IHDR'', ''gAMA'', ''iDOT'', ''IDAT'', ''IDAT'', ''tEXt'', ''IEND''] \<and>
   map chunkType (chunksFrom exampleBack 8) = [''IHDR'', ''gAMA'', ''tEXt'', ''IDAT'', ''IEND'']"
  by (simp add: example_standard example_inflate example_geometry example_forward example_backward
      example_chunks exampleBack_chunks exampleChunks_def example_types chunkType_idat
      chunkType_iend)

theorem double_conversion_restores_image_witness:
  "losslessCodec exampleZlib \<and> isStandardPng examplePng \<and>
   chunkType (headerChunk examplePng) = ''IHDR'' \<and> complete examplePng \<and>
   inflate exampleZlib (idatStream examplePng) = Inr examplePixels \<and>
   length examplePixels = imageHeight examplePng * (1 + 4 * imageWidth examplePng) \<and>
   convert exampleZlib exampleCRC examplePng = Inr exampleCgbi \<and>
   convert exampleZlib exampleCRC exampleCgbi = Inr exampleBack \<and>
   inflate exampleZlib
     [0x78, 0x01, 0x01, 0x09, 0x00, 0xf6, 0xff, 0x00, 0x10, 0x20, 0x30, 0xff, 0x40, 0x50,
      0x60, 0x80, 0x0a, 0xb4, 0x02, 0xd0] = Inr examplePixels"
proof -
  note r = double_conversion_restores_image [OF example_lossless example_standard example_ihdr example_complete
      example_inflate example_geometry example_mid example_small example_fin, of exampleCRC]
  have "convert exampleZlib exampleCRC examplePng = Inr exampleCgbi \<and>
   convert exampleZlib exampleCRC exampleCgbi = Inr exampleBack \<and>
   inflate exampleZlib
     [0x78, 0x01, 0x01, 0x09, 0x00, 0xf6, 0xff, 0x00, 0x10, 0x20, 0x30, 0xff, 0x40, 0x50,
      0x60, 0x80, 0x0a, 0xb4, 0x02, 0xd0] = Inr examplePixels"
    unfolding exampleCgbi_framed exampleBack_framed by (rule r)
  with example_lossless example_standard example_ihdr example_complete example_inflate
    example_geometry
  show ?thesis by simp
qed

theorem convert_layout_witness:
  "convert exampleZlib exampleCRC examplePng = Inr exampleCgbi \<and>
   (hasPngHeader examplePng \<and> typeRaw (headerChunk examplePng) = [0x49, 0x48, 0x44, 0x52] \<and>
    (\<exists>newIdat. rebuiltIdat exampleZlib examplePng = Inr newIdat \<and>
       exampleCgbi = PNG_HEADER @
             (if hasCgbiChunk examplePng 8 then [] else CGBI_CHUNK @ CGBI_BGRA) @
             subarray examplePng (firstChunkOffset examplePng)
               (chunkEnd examplePng (firstChunkOffset examplePng)) @
             concat (map chunkBytes (filter passedThrough (restChunks examplePng))) @
             (toUint8Array (int (length newIdat)) @ [0x49, 0x44, 0x41, 0x54] @ newIdat @
              toUint8Array (exampleCRC ''IDAT'' newIdat)) @
             [0x00, 0x00, 0x00, 0x00, 0x49, 0x45, 0x4e, 0x44, 0xae, 0x42, 0x60, 0x82]))"
  using example_forward convert_layout [OF example_forward] by (rule conjI)

theorem convert_rejects_non_png_witness:
  "take 8 [0xff, 0xd8, 0xff :: byte] \<noteq> PNG_HEADER \<and>
   convert exampleZlib exampleCRC [0xff, 0xd8, 0xff] = Inl (Error ''Data is not a PNG file.'')"
  using convert_rejects_non_png [of "[0xff, 0xd8, 0xff]" exampleZlib exampleCRC]
  by (simp add: PNG_HEADER_def)


theorem passthrough_fidelity_witness:
  "convert exampleZlib exampleCRC examplePng = Inr exampleCgbi \<and>
   complete examplePng \<and> length exampleCgbi < 4294967296 \<and>
   filter passThroughType (restChunks exampleCgbi) = filter passThroughType (restChunks examplePng) \<and>
   filter passThroughType (restChunks examplePng) = [exampleGAMA, exampleTEXT]"
proof -
  have "filter passThroughType (restChunks examplePng) = [exampleGAMA, exampleTEXT]"
    by (simp add: example_parse exampleChunks_def passThroughType_def example_types chunkType_iend)
  with passthrough_fidelity [OF example_forward] example_forward example_complete example_length
  show ?thesis by auto
qed


text \<open>
  A truncated input. When the input ends inside a chunk, the loop re-emits the bytes
  that were there, and the chunk boundaries of the output are no longer those of the
  chunks written.
\<close>

lemma framed_prefix:
  assumes wf: "wellFramed h" "list_all wellFramed cs"
    and ty: "chunkType h = ''IHDR''" "list_all (\<lambda>c. chunkType c \<noteq> ''IEND'') cs"
    and data: "data = PNG_HEADER @ chunkBytes h @ concat (map chunkBytes cs) @ rest"
  shows "hasPngHeader data" "\<not> hasCgbiChunk data 8"
    "headerChunk data = h" "restChunks data = cs @ chunksFrom rest 0"
proof -
  let ?rest = "concat (map chunkBytes cs) @ rest"
  show "hasPngHeader data"
    by (simp add: hasPngHeader_iff data length_PNG_HEADER)
  show hc: "\<not> hasCgbiChunk data 8"
    using no_marker_before_IHDR [OF wf(1) ty(1), of ?rest] by (simp add: data)
  then have off: "firstChunkOffset data = length PNG_HEADER"
    by (simp add: firstChunkOffset_def length_PNG_HEADER)
  have split: "data = PNG_HEADER @ chunkBytes h @ ?rest"
    by (simp add: data)
  have at: "chunkAt data (length PNG_HEADER + 0) = chunkAt (chunkBytes h @ ?rest) 0"
    unfolding split by (rule chunkAt_shift)
  show "headerChunk data = h"
    using at chunkAt_here(1) [OF wf(1), of ?rest] by (simp add: headerChunk_def off)
  have "chunkEnd data (length PNG_HEADER + 0) =
      length PNG_HEADER + chunkEnd (chunkBytes h @ ?rest) 0"
    unfolding split by (rule chunkEnd_shift)
  then have e: "chunkEnd data (firstChunkOffset data) = length (PNG_HEADER @ chunkBytes h) + 0"
    using chunkAt_here(2) [OF wf(1), of ?rest] by (simp add: off)
  have split': "data = (PNG_HEADER @ chunkBytes h) @ ?rest"
    by (simp add: data)
  have "restChunks data = chunksFrom ?rest 0"
    unfolding restChunks_def e by (subst split') (rule chunksFrom_shift)
  also have "\<dots> = cs @ chunksFrom rest 0"
    by (rule chunksFrom_concat [OF wf(2) ty(2)])
  finally show "restChunks data = cs @ chunksFrom rest 0" .
qed

lemma truncated_types:
  "chunkType truncatedIDAT = ''IDAT''" "chunkType truncatedTEXT = ''tEXt''"
  "chunkType scannedTEXT = ''tEXt''" "chunkType scannedIDOT = ''iDOT''"
  by (simp_all add: chunkType_def fromCharCode_def char_of_eq_iff truncatedIDAT_def
      truncatedTEXT_def scannedTEXT_def scannedIDOT_def)

lemma truncated_wellFramed:
  "wellFramed truncatedIDAT" "wellFramed scannedTEXT" "wellFramed scannedIDOT"
  by (simp_all add: wellFramed_def toNumber4 truncatedIDAT_def scannedTEXT_def scannedIDOT_def)

lemma truncated_tail:
  "chunksFrom [0x00, 0x00, 0x00, 0x0a, 0x74, 0x45, 0x58, 0x74] 0 = [truncatedTEXT]"
proof -
  let ?t = "[0x00, 0x00, 0x00, 0x0a, 0x74, 0x45, 0x58, 0x74] :: Uint8Array"
  have at: "chunkAt ?t 0 = truncatedTEXT"
    by (simp add: chunkAt_def Let_def subarray_def toNumber4 truncatedTEXT_def)
  have en: "chunkEnd ?t 0 = 22"
    by (simp add: chunkEnd_def subarray_def toNumber4)
  have "chunksFrom ?t 22 = []"
    by (subst chunksFrom.simps) simp
  then show ?thesis
    by (subst chunksFrom.simps) (simp add: at en truncated_types)
qed

lemma exampleTruncated_framed:
  "exampleTruncated = PNG_HEADER @ chunkBytes exampleIHDR @ concat (map chunkBytes [truncatedIDAT]) @
     [0x00, 0x00, 0x00, 0x0a, 0x74, 0x45, 0x58, 0x74]"
  by (simp add: exampleTruncated_def PNG_HEADER_def chunkBytes_def exampleIHDR_def
      truncatedIDAT_def)

lemma truncated_parse:
  "hasPngHeader exampleTruncated" "\<not> hasCgbiChunk exampleTruncated 8"
  "headerChunk exampleTruncated = exampleIHDR"
  "restChunks exampleTruncated = [truncatedIDAT, truncatedTEXT]"
proof -
  have wf: "list_all wellFramed [truncatedIDAT]"
    by (simp add: truncated_wellFramed)
  have ne: "list_all (\<lambda>c. chunkType c \<noteq> ''IEND'') [truncatedIDAT]"
    by (simp add: truncated_types)
  note fp = framed_prefix [OF example_wellFramed(1) wf example_types(1) ne exampleTruncated_framed]
  show "hasPngHeader exampleTruncated" by (rule fp(1))
  show "\<not> hasCgbiChunk exampleTruncated 8" by (rule fp(2))
  show "headerChunk exampleTruncated = exampleIHDR" by (rule fp(3))
  show "restChunks exampleTruncated = [truncatedIDAT, truncatedTEXT]"
    using fp(4) by (simp add: truncated_tail)
qed

lemma truncated_not_complete: "\<not> complete exampleTruncated"
  by (simp add: complete_def truncated_parse wellFramed_def truncatedTEXT_def)







end
